theory Spec2Isabelle
  imports Main "HOL-Library.Char_ord" "HOL-Library.List_Lexorder" "HOL-Library.FSet"
begin

section \<open>Grammar trees\<close>

text \<open>
  The grammar classes of \<^verbatim>\<open>pegen.grammar\<close>, as \<^verbatim>\<open>janet_generator.py\<close> imports and uses
  them. The call maker's cache is keyed by node objects; a node that can be a cache key
  (\<^verbatim>\<open>Rhs\<close>, \<^verbatim>\<open>Repeat0\<close>, \<^verbatim>\<open>Repeat1\<close>, \<^verbatim>\<open>Gather\<close>) carries its identity as a number.
\<close>

datatype item =
    NameLeaf string
  | StringLeaf string
  | Group rhs
  | Opt item
  | Repeat0 nat item
  | Repeat1 nat item
  | Gather nat item item
  | PositiveLookahead item
  | NegativeLookahead item
  | Cut
  | Forced item
and rhs = Rhs nat "alt list"
and alt = Alt "named_item list" "string option"
and named_item = NamedItem "string option" item

text \<open>A rule: name, declared type, right-hand side and the analysis flags.\<close>

record rule =
  rule_name :: string
  rule_type :: "string option"
  rule_rhs :: rhs
  nullable :: bool
  left_recursive :: bool
  leader :: bool

datatype node_key = KRhs nat | KRepeat0 nat | KRepeat1 nat | KGather nat

datatype error =
    AssertionError
  | ValueError
  | IndexError
  | AttributeError
  | KeyError
  | NotImplementedError
  | LiteralEvalError
  | FormatError

section \<open>Characters and Python string helpers\<close>

abbreviation squote :: char where "squote \<equiv> CHR 0x27"
abbreviation dquote :: char where "dquote \<equiv> CHR 0x22"
abbreviation backtick :: char where "backtick \<equiv> CHR 0x60"
abbreviation backslash :: char where "backslash \<equiv> CHR 0x5C"

definition endswith :: "string \<Rightarrow> string \<Rightarrow> bool" where
  "endswith s suf = (length suf \<le> length s \<and> drop (length s - length suf) s = suf)"

definition startswith :: "string \<Rightarrow> string \<Rightarrow> bool" where
  "startswith s pre = (take (length pre) s = pre)"

text \<open>\<^verbatim>\<open>sub in s\<close> on strings.\<close>

fun contains :: "string \<Rightarrow> string \<Rightarrow> bool" where
  "contains sub [] = (sub = [])"
| "contains sub (c # cs) = (startswith (c # cs) sub \<or> contains sub cs)"

text \<open>
  \<^verbatim>\<open>s.replace(old, new)\<close> for a non-empty \<^verbatim>\<open>old\<close> (the generator replaces the two macro
  names only). Every step consumes at least one character, so the length of the string is
  fuel enough.
\<close>

fun replace_fuel :: "nat \<Rightarrow> string \<Rightarrow> string \<Rightarrow> string \<Rightarrow> string" where
  "replace_fuel 0 old new s = s"
| "replace_fuel (Suc n) old new [] = []"
| "replace_fuel (Suc n) old new (c # cs) =
     (if startswith (c # cs) old
      then new @ replace_fuel n old new (drop (length old) (c # cs))
      else c # replace_fuel n old new cs)"

definition replace :: "string \<Rightarrow> string \<Rightarrow> string \<Rightarrow> string" where
  "replace s old new = replace_fuel (length s) old new s"

text \<open>\<^verbatim>\<open>str.isascii\<close> and \<^verbatim>\<open>str.isprintable\<close>, on the ASCII range.\<close>

definition isascii :: "string \<Rightarrow> bool" where
  "isascii s = list_all (\<lambda>c. (of_char c :: nat) < 128) s"

definition isprintable :: "string \<Rightarrow> bool" where
  "isprintable s = list_all (\<lambda>c. 32 \<le> (of_char c :: nat) \<and> (of_char c :: nat) < 127) s"

definition is_alpha_us :: "char \<Rightarrow> bool" where
  "is_alpha_us c = (let n = (of_char c :: nat) in
     (65 \<le> n \<and> n \<le> 90) \<or> (97 \<le> n \<and> n \<le> 122) \<or> n = 95)"

definition is_word :: "char \<Rightarrow> bool" where
  "is_word c = (let n = (of_char c :: nat) in is_alpha_us c \<or> (48 \<le> n \<and> n \<le> 57))"

text \<open>
  The pattern \<^verbatim>\<open>[a-zA-Z_]\w*\Z\<close> on ASCII text: an ASCII letter or underscore, then ASCII
  letters, digits and underscores. Python's \<^verbatim>\<open>\w\<close> also accepts word characters outside
  ASCII; the match itself is a function of the host below, and this is its restriction to
  ASCII text, which the example host uses.
\<close>

definition is_keyword_text :: "string \<Rightarrow> bool" where
  "is_keyword_text val = (case val of [] \<Rightarrow> False | c # cs \<Rightarrow> is_alpha_us c \<and> list_all is_word cs)"

text \<open>\<^verbatim>\<open>str.lower\<close> on ASCII text.\<close>

definition lower_char :: "char \<Rightarrow> char" where
  "lower_char c =
     (case map_of (zip ''ABCDEFGHIJKLMNOPQRSTUVWXYZ'' ''abcdefghijklmnopqrstuvwxyz'') c of
        Some d \<Rightarrow> d
      | None \<Rightarrow> c)"

definition lower :: "string \<Rightarrow> string" where
  "lower s = map lower_char s"

section \<open>Janet literals\<close>

text \<open>
  \<^verbatim>\<open>escape(s)\<close> builds a \<^verbatim>\<open>JanetLiteralExpr\<close>, whose constructor asserts that a string is
  ASCII; the f-strings then format it with \<^verbatim>\<open>__str__\<close>. Only strings are ever escaped by the
  generator, so the model is on strings.
\<close>

definition janet_str :: "string \<Rightarrow> string" where
  "janet_str val =
     (if isprintable val \<and> backslash \<notin> set val \<and> dquote \<notin> set val
      then [dquote] @ val @ [dquote]
      else (let backticks = replicate (count_list val backtick + 1) backtick
            in backticks @ val @ backticks))"

definition escape :: "string \<Rightarrow> error + string" where
  "escape s = (if isascii s then Inr (janet_str s) else Inl AssertionError)"

section \<open>Generator state\<close>

text \<open>
  The mutable fields of a \<^verbatim>\<open>JanetParserGenerator\<close> and of its \<^verbatim>\<open>JanetCallMakerVisitor\<close>.
  The output file is the list of the lines printed so far, each with its indentation
  level; \<^verbatim>\<open>todo\<close> is a Python dict, kept in insertion order. The call maker's set of
  exact keywords is the field \<^verbatim>\<open>exact_keywords\<close>.
\<close>

record gen_state =
  out :: "(nat \<times> string) list"
  level :: nat
  todo :: "(string \<times> rule) list"
  counter :: nat
  cache :: "node_key \<Rightarrow> (string option \<times> string) option"
  exact_keywords :: "string fset"
  soft_keywords :: "string fset"
  local_variable_stack :: "string list list"
  cleanup_statements :: "string list"

text \<open>
  What the generator is given and does not change. Four functions of the Python library
  and of \<^verbatim>\<open>pegen/grammar.py\<close>, outside the model: \<^verbatim>\<open>ast.literal_eval\<close> (\<^verbatim>\<open>None\<close> when it
  raises); whether \<^verbatim>\<open>re.match(r"[a-zA-Z_]\w*\Z", val)\<close> finds a match; \<^verbatim>\<open>str.format\<close> with the
  one keyword argument \<^verbatim>\<open>filename\<close>, applied to a header that the grammar may supply
  (\<^verbatim>\<open>None\<close> when it raises); and the \<^verbatim>\<open>__str__\<close> of a right-hand side, which only produces
  text for a comment and a diagnostic. And the two formatting texts that the constructor
  of \<^verbatim>\<open>JanetParserGenerator\<close> stores.
\<close>

record host =
  literal_eval :: "string \<Rightarrow> string option"
  keyword_match :: "string \<Rightarrow> bool"
  format_filename :: "string \<Rightarrow> string \<Rightarrow> string option"
  rhs_str :: "rhs \<Rightarrow> string"
  location_formatting :: string
  unreachable_formatting :: string

type_synonym 'a result = "error + ('a \<times> gen_state)"

text \<open>Python truth of an \<^verbatim>\<open>Optional[str]\<close>: neither \<^verbatim>\<open>None\<close> nor empty.\<close>

definition truthy :: "string option \<Rightarrow> bool" where
  "truthy a = (case a of None \<Rightarrow> False | Some s \<Rightarrow> s \<noteq> [])"

text \<open>\<^verbatim>\<open>d[k] = v\<close> on a dict: an existing key keeps its place, a new one goes last.\<close>

fun dict_set :: "'k \<Rightarrow> 'v \<Rightarrow> ('k \<times> 'v) list \<Rightarrow> ('k \<times> 'v) list" where
  "dict_set k v [] = [(k, v)]"
| "dict_set k v (p # ps) = (if fst p = k then (k, v) # ps else p # dict_set k v ps)"

text \<open>\<^verbatim>\<open>str(n)\<close> of a natural number.\<close>

definition digit :: "nat \<Rightarrow> char" where
  "digit d = ''0123456789'' ! d"

function str_nat :: "nat \<Rightarrow> string" where
  "str_nat n = (if n < 10 then [digit n] else str_nat (n div 10) @ [digit (n mod 10)])"
  by pat_completeness auto
termination
  by (relation "measure id") auto

declare str_nat.simps [simp del]

section \<open>Synthetic rules\<close>

definition new_rule :: "string \<Rightarrow> rhs \<Rightarrow> rule" where
  "new_rule name r = \<lparr> rule_name = name, rule_type = None, rule_rhs = r,
     nullable = False, left_recursive = False, leader = False \<rparr>"

text \<open>
  Modelled from the spec: \<^verbatim>\<open>ParserGenerator.name_node\<close>, \<^verbatim>\<open>name_loop\<close> and \<^verbatim>\<open>name_gather\<close> of
  \<^verbatim>\<open>pegen/parser_generator.py\<close>, which is not among the sources. The spec has synthetic
  rules "created on demand" and "enqueued into the shared worklist exactly like authored
  rules", a repeat helper "per requires-at-least-one flag", and a gather as "one-or-more
  with separator, value = head + rest". Names are drawn from the generator's counter.
  The right-hand side built around a repeated item is a new object; the call maker only
  looks up right-hand sides of groups, so its identity never reaches the cache and is
  written 0.
\<close>

definition name_node :: "rhs \<Rightarrow> gen_state \<Rightarrow> string \<times> gen_state" where
  "name_node r s =
     (let c = counter s + 1;
          name = ''_tmp_'' @ str_nat c
      in (name, s\<lparr>counter := c, todo := dict_set name (new_rule name r) (todo s)\<rparr>))"

definition name_loop :: "item \<Rightarrow> bool \<Rightarrow> gen_state \<Rightarrow> string \<times> gen_state" where
  "name_loop node is_repeat1 s =
     (let c = counter s + 1;
          prefix = (if is_repeat1 then ''_loop1_'' else ''_loop0_'');
          name = prefix @ str_nat c
      in (name, s\<lparr>counter := c,
            todo := dict_set name (new_rule name (Rhs 0 [Alt [NamedItem None node] None])) (todo s)\<rparr>))"

definition name_gather :: "item \<Rightarrow> item \<Rightarrow> gen_state \<Rightarrow> string \<times> gen_state" where
  "name_gather separator node s =
     (let c = counter s + 1;
          name = ''_gather_'' @ str_nat c;
          c' = c + 1;
          extra_function_name = ''_loop0_'' @ str_nat c';
          extra_function_alt =
            Alt [NamedItem None separator, NamedItem (Some ''elem'') node] (Some ''elem'');
          todo1 = dict_set extra_function_name
                    (new_rule extra_function_name (Rhs 0 [extra_function_alt])) (todo s);
          alt = Alt [NamedItem (Some ''elem'') node,
                     NamedItem (Some ''seq'') (NameLeaf extra_function_name)] None
      in (name, s\<lparr>counter := c', todo := dict_set name (new_rule name (Rhs 0 [alt])) todo1\<rparr>))"

section \<open>The call maker\<close>

text \<open>\<^verbatim>\<open>call.split("(", 1)\<close>: the text before the first parenthesis and the text after it.\<close>

fun split_paren :: "string \<Rightarrow> (string \<times> string) option" where
  "split_paren [] = None"
| "split_paren (c # cs) =
     (if c = CHR ''('' then Some ([], cs)
      else (case split_paren cs of None \<Rightarrow> None | Some (h, t) \<Rightarrow> Some (c # h, t)))"

text \<open>The part of \<^verbatim>\<open>lookahead_call_helper\<close> after the visit of the inner node.\<close>

definition lookahead_split :: "string \<Rightarrow> error + (string \<times> string)" where
  "lookahead_split call =
     (case split_paren call of
        None \<Rightarrow> Inl ValueError
      | Some (head, tail) \<Rightarrow>
          if tail = [] then Inl IndexError
          else if last tail \<noteq> CHR '')'' then Inl AssertionError
          else Inr (head, butlast tail))"

definition visit_NameLeaf :: "string \<Rightarrow> error + (string option \<times> string)" where
  "visit_NameLeaf name =
     (if name = ''SOFT_KEYWORD'' then Inr (Some ''soft_keyword'', ''(self soft_keyword)'')
      else if name \<in> set [''NAME'', ''NUMBER'', ''STRING'', ''OP'', ''TYPE_COMMENT'']
      then Inr (Some (lower name), ''(self '' @ lower name @ '')'')
      else if name \<in> set [''NEWLINE'', ''DEDENT'', ''INDENT'', ''ENDMARKER'', ''ASYNC'', ''AWAIT'']
      then (case escape name of
              Inl e \<Rightarrow> Inl e
            | Inr lit \<Rightarrow> Inr (Some (''_'' @ lower name), ''(self expect '' @ lit @ '')''))
      else Inr (Some name, ''(self '' @ name @ '')''))"

definition visit_StringLeaf :: "host \<Rightarrow> string \<Rightarrow> gen_state \<Rightarrow> (string option \<times> string) result" where
  "visit_StringLeaf h v s =
     (case literal_eval h v of
        None \<Rightarrow> Inl LiteralEvalError
      | Some val \<Rightarrow>
          (let s1 = (if keyword_match h val
                     then (if endswith v [squote]
                           then s\<lparr>exact_keywords := finsert val (exact_keywords s)\<rparr>
                           else s\<lparr>soft_keywords := finsert val (soft_keywords s)\<rparr>)
                     else s)
           in (case escape v of
                 Inl e \<Rightarrow> Inl e
               | Inr lit \<Rightarrow> Inr ((Some ''literal'', ''(expect '' @ lit @ '')''), s1))))"

text \<open>\<^verbatim>\<open>node.node.value\<close> in \<^verbatim>\<open>visit_Forced\<close>: only the two leaves have a \<^verbatim>\<open>value\<close>.\<close>

definition node_value :: "item \<Rightarrow> error + string" where
  "node_value it = (case it of NameLeaf v \<Rightarrow> Inr v | StringLeaf v \<Rightarrow> Inr v | _ \<Rightarrow> Inl AttributeError)"

definition forced_leaf :: "item \<Rightarrow> error + (string option \<times> string)" where
  "forced_leaf it =
     (case node_value it of
        Inl e \<Rightarrow> Inl e
      | Inr v \<Rightarrow>
          (case escape v of
             Inl e \<Rightarrow> Inl e
           | Inr lit \<Rightarrow>
               Inr (Some ''forced'',
                    ''(self expect_forced (self expect '' @ lit @ '') '' @ lit @ '')'')))"

definition forced_group :: "host \<Rightarrow> rhs \<Rightarrow> string \<Rightarrow> error + (string option \<times> string)" where
  "forced_group h r val =
     (case escape val of
        Inl e \<Rightarrow> Inl e
      | Inr lit \<Rightarrow>
          Inr (Some ''forced'',
               ''(self expect_forced '' @ lit @ '' '' @ replicate 4 backtick @ ''('' @ rhs_str h r
                 @ '')'' @ replicate 4 backtick @ '')''))"

definition opt_call :: "string \<Rightarrow> string" where
  "opt_call call = (if endswith call '','' then call else call @ '','')"

text \<open>
  \<^verbatim>\<open>JanetCallMakerVisitor.visit\<close>: the dispatch on the node's class, with one equation for
  each \<^verbatim>\<open>visit_*\<close> method. \<^verbatim>\<open>cm_visit_Rhs\<close> is \<^verbatim>\<open>visit_Rhs\<close> and \<^verbatim>\<open>cm_visit_NamedItem\<close> is
  \<^verbatim>\<open>visit_NamedItem\<close> of that class.
\<close>

fun cm_visit :: "host \<Rightarrow> item \<Rightarrow> gen_state \<Rightarrow> (string option \<times> string) result"
  and cm_visit_Rhs :: "host \<Rightarrow> rhs \<Rightarrow> gen_state \<Rightarrow> (string option \<times> string) result"
  and cm_visit_NamedItem :: "host \<Rightarrow> named_item \<Rightarrow> gen_state \<Rightarrow> (string option \<times> string) result"
where
  "cm_visit h (NameLeaf name) s =
     (case visit_NameLeaf name of Inl e \<Rightarrow> Inl e | Inr r \<Rightarrow> Inr (r, s))"
| "cm_visit h (StringLeaf v) s = visit_StringLeaf h v s"
| "cm_visit h (Group r) s = cm_visit_Rhs h r s"
| "cm_visit h (Opt node) s =
     (case cm_visit h node s of
        Inl e \<Rightarrow> Inl e
      | Inr ((name, call), s1) \<Rightarrow> Inr ((Some ''opt'', opt_call call), s1))"
| "cm_visit h (Repeat0 i node) s =
     (case cache s (KRepeat0 i) of
        Some r \<Rightarrow> Inr (r, s)
      | None \<Rightarrow>
          (let (name, s1) = name_loop node False s;
               r = (Some name, ''(self '' @ name @ ''),'')
           in Inr (r, s1\<lparr>cache := (cache s1)(KRepeat0 i \<mapsto> r)\<rparr>)))"
| "cm_visit h (Repeat1 i node) s =
     (case cache s (KRepeat1 i) of
        Some r \<Rightarrow> Inr (r, s)
      | None \<Rightarrow>
          (let (name, s1) = name_loop node True s;
               r = (Some name, ''(self '' @ name @ '')'')
           in Inr (r, s1\<lparr>cache := (cache s1)(KRepeat1 i \<mapsto> r)\<rparr>)))"
| "cm_visit h (Gather i separator node) s =
     (case cache s (KGather i) of
        Some r \<Rightarrow> Inr (r, s)
      | None \<Rightarrow>
          (let (name, s1) = name_gather separator node s;
               r = (Some name, ''(self '' @ name @ '')'')
           in Inr (r, s1\<lparr>cache := (cache s1)(KGather i \<mapsto> r)\<rparr>)))"
| "cm_visit h (PositiveLookahead node) s =
     (case cm_visit h node s of
        Inl e \<Rightarrow> Inl e
      | Inr ((name, call), s1) \<Rightarrow>
          (case lookahead_split call of
             Inl e \<Rightarrow> Inl e
           | Inr (head, tail) \<Rightarrow>
               Inr ((None, ''(self positive_lookahead '' @ head @ '' '' @ tail @ '')''), s1)))"
| "cm_visit h (NegativeLookahead node) s =
     (case cm_visit h node s of
        Inl e \<Rightarrow> Inl e
      | Inr ((name, call), s1) \<Rightarrow>
          (case lookahead_split call of
             Inl e \<Rightarrow> Inl e
           | Inr (head, tail) \<Rightarrow>
               Inr ((None, ''(self negative_lookahead '' @ head @ '' '' @ tail @ '')''), s1)))"
| "cm_visit h Cut s = Inr ((Some ''cut'', ''true''), s)"
| "cm_visit h (Forced (Group r)) s =
     (case cm_visit_Rhs h r s of
        Inl e \<Rightarrow> Inl e
      | Inr ((name, val), s1) \<Rightarrow>
          (case forced_group h r val of Inl e \<Rightarrow> Inl e | Inr res \<Rightarrow> Inr (res, s1)))"
| "cm_visit h (Forced node) s =
     (case forced_leaf node of Inl e \<Rightarrow> Inl e | Inr res \<Rightarrow> Inr (res, s))"
| "cm_visit_Rhs h (Rhs i alts) s =
     (case cache s (KRhs i) of
        Some r \<Rightarrow> Inr (r, s)
      | None \<Rightarrow>
          (case alts of
             [Alt [ni] action] \<Rightarrow>
               (case cm_visit_NamedItem h ni s of
                  Inl e \<Rightarrow> Inl e
                | Inr (r, s1) \<Rightarrow> Inr (r, s1\<lparr>cache := (cache s1)(KRhs i \<mapsto> r)\<rparr>))
           | _ \<Rightarrow>
               (let (name, s1) = name_node (Rhs i alts) s;
                    r = (Some name, ''(self '' @ name @ '')'')
                in Inr (r, s1\<lparr>cache := (cache s1)(KRhs i \<mapsto> r)\<rparr>))))"
| "cm_visit_NamedItem h (NamedItem nm it) s =
     (case cm_visit h it s of
        Inl e \<Rightarrow> Inl e
      | Inr ((name, call), s1) \<Rightarrow> Inr ((if truthy nm then nm else name, call), s1))"

section \<open>Text emission and local names\<close>

text \<open>
  Modelled from the spec: \<^verbatim>\<open>print\<close>, \<^verbatim>\<open>indent\<close>, \<^verbatim>\<open>local_variable_context\<close>,
  \<^verbatim>\<open>local_variable_names\<close> and \<^verbatim>\<open>dedupe\<close> of \<^verbatim>\<open>ParserGenerator\<close> in
  \<^verbatim>\<open>pegen/parser_generator.py\<close>, which is not among the sources: the spec's "indentation-aware
  text emission" and "per-alternative local-name deduplication", with a "collision resolved
  by suffixing". A printed line is kept with the indentation level it was printed at; a
  \<^verbatim>\<open>print()\<close> with no argument writes an empty line. The stack of local names has its top
  first. \<^verbatim>\<open>dedupe\<close> tries the name, then the name with the suffixes \<^verbatim>\<open>_1\<close>, \<^verbatim>\<open>_2\<close>, ...;
  among that many candidates more than there are names in use, one is free.
\<close>

definition gen_print :: "string \<Rightarrow> gen_state \<Rightarrow> gen_state" where
  "gen_print line s = s\<lparr>out := out s @ [(level s, line)]\<rparr>"

definition print_empty :: "gen_state \<Rightarrow> gen_state" where
  "print_empty s = s\<lparr>out := out s @ [(0, [])]\<rparr>"

definition indent :: "gen_state \<Rightarrow> gen_state" where
  "indent s = s\<lparr>level := level s + 1\<rparr>"

definition dedent :: "gen_state \<Rightarrow> gen_state" where
  "dedent s = s\<lparr>level := level s - 1\<rparr>"

definition push_locals :: "gen_state \<Rightarrow> gen_state" where
  "push_locals s = s\<lparr>local_variable_stack := [] # local_variable_stack s\<rparr>"

definition pop_locals :: "gen_state \<Rightarrow> gen_state" where
  "pop_locals s = s\<lparr>local_variable_stack := tl (local_variable_stack s)\<rparr>"

definition local_variable_names :: "gen_state \<Rightarrow> error + string list" where
  "local_variable_names s =
     (case local_variable_stack s of [] \<Rightarrow> Inl IndexError | names # rest \<Rightarrow> Inr names)"

fun dedupe_loop :: "nat \<Rightarrow> string \<Rightarrow> nat \<Rightarrow> string list \<Rightarrow> string" where
  "dedupe_loop fuel origname c names =
     (let name = (if c = 0 then origname else origname @ ''_'' @ str_nat c)
      in if name \<notin> set names then name
         else (case fuel of 0 \<Rightarrow> name | Suc f \<Rightarrow> dedupe_loop f origname (c + 1) names))"

declare dedupe_loop.simps [simp del]

definition dedupe :: "string \<Rightarrow> gen_state \<Rightarrow> string result" where
  "dedupe name s =
     (case local_variable_stack s of
        [] \<Rightarrow> Inl IndexError
      | names # rest \<Rightarrow>
          (let name' = dedupe_loop (length names) name 0 names
           in Inr (name', s\<lparr>local_variable_stack := (names @ [name']) # rest\<rparr>)))"

section \<open>Rules as the generator asks about them\<close>

text \<open>
  Modelled from the spec: \<^verbatim>\<open>Rule.is_loop\<close>, \<^verbatim>\<open>Rule.is_gather\<close> and \<^verbatim>\<open>Rule.flatten\<close> of
  \<^verbatim>\<open>pegen/grammar.py\<close>, which is not among the sources. The spec's "loop-shaped rule
  (repeat/gather helper)" is a rule that the generator named as a repeat helper, and a
  gather rule one that it named as a gather; a rule whose right-hand side is one
  parenthesised group is emitted as that group's right-hand side.
\<close>

definition is_loop :: "rule \<Rightarrow> bool" where
  "is_loop r = startswith (rule_name r) ''_loop''"

definition is_gather :: "rule \<Rightarrow> bool" where
  "is_gather r = startswith (rule_name r) ''_gather''"

fun flatten_rhs :: "rhs \<Rightarrow> rhs" where
  "flatten_rhs (Rhs i [Alt [NamedItem nm (Group g)] action]) = g"
| "flatten_rhs r = r"

definition flatten :: "rule \<Rightarrow> rhs" where
  "flatten r = (if is_loop r then rule_rhs r else flatten_rhs (rule_rhs r))"

section \<open>The visitor for invalid rules\<close>

text \<open>
  \<^verbatim>\<open>InvalidNodeVisitor\<close>. Modelled from the spec: the dispatch of \<^verbatim>\<open>GrammarVisitor.visit\<close>
  (\<^verbatim>\<open>pegen/grammar.py\<close>, not among the sources), the spec's "dynamic single-dispatch
  visiting": the method is found by the name of the node's class, and a class with no
  method of its name gets \<^verbatim>\<open>generic_visit\<close>, which returns nothing. \<^verbatim>\<open>InvalidNodeVisitor\<close>
  has a \<^verbatim>\<open>visit_Repeat\<close> and no \<^verbatim>\<open>visit_Repeat0\<close> or \<^verbatim>\<open>visit_Repeat1\<close>, so on a repeat its
  answer is not true. \<^verbatim>\<open>visit_Gather\<close> looks at the repeated node only.
\<close>

fun invalid_visit :: "item \<Rightarrow> bool"
  and invalid_visit_Rhs :: "rhs \<Rightarrow> bool"
  and invalid_visit_Alt :: "alt \<Rightarrow> bool"
  and invalid_visit_NamedItem :: "named_item \<Rightarrow> bool"
where
  "invalid_visit (NameLeaf name) = startswith name ''invalid''"
| "invalid_visit (StringLeaf v) = False"
| "invalid_visit (Group r) = invalid_visit_Rhs r"
| "invalid_visit (Opt node) = invalid_visit node"
| "invalid_visit (Repeat0 i node) = False"
| "invalid_visit (Repeat1 i node) = False"
| "invalid_visit (Gather i separator node) = invalid_visit node"
| "invalid_visit (PositiveLookahead node) = invalid_visit node"
| "invalid_visit (NegativeLookahead node) = invalid_visit node"
| "invalid_visit Cut = False"
| "invalid_visit (Forced node) = invalid_visit node"
| "invalid_visit_Rhs (Rhs i alts) = (\<exists>a \<in> set alts. invalid_visit_Alt a)"
| "invalid_visit_Alt (Alt items action) = (\<exists>ni \<in> set items. invalid_visit_NamedItem ni)"
| "invalid_visit_NamedItem (NamedItem nm it) = invalid_visit it"

section \<open>The rule and alternative emitter\<close>

text \<open>\<^verbatim>\<open>action and macro in action\<close>, for an optional action text.\<close>

definition action_mentions :: "string \<Rightarrow> string option \<Rightarrow> bool" where
  "action_mentions macro action =
     (case action of None \<Rightarrow> False | Some a \<Rightarrow> a \<noteq> [] \<and> contains macro a)"

fun alts_uses_locations :: "alt list \<Rightarrow> bool"
  and alt_uses_locations :: "alt \<Rightarrow> bool"
  and named_uses_locations :: "named_item \<Rightarrow> bool"
where
  "alts_uses_locations [] = False"
| "alts_uses_locations (a # rest) = (alt_uses_locations a \<or> alts_uses_locations rest)"
| "alt_uses_locations (Alt items action) =
     (action_mentions ''LOCATIONS'' action \<or> (\<exists>n \<in> set items. named_uses_locations n))"
| "named_uses_locations (NamedItem nm (Group (Rhs i alts))) = alts_uses_locations alts"
| "named_uses_locations (NamedItem nm it) = False"

definition add_return :: "string \<Rightarrow> gen_state \<Rightarrow> gen_state" where
  "add_return ret_val s =
     gen_print (''(return '' @ ret_val @ '')'') (fold gen_print (cleanup_statements s) s)"

text \<open>
  \<^verbatim>\<open>JanetParserGenerator.visit_NamedItem\<close>, in three parts: the name that the item is bound
  to (\<^verbatim>\<open>used\<close> is the optional set of names the action uses), the line printed for it
  (\<^verbatim>\<open>not name\<close> holds of \<^verbatim>\<open>None\<close> and of the empty name), and the method itself.
\<close>

definition item_name ::
  "string option \<Rightarrow> string option \<Rightarrow> string set option \<Rightarrow> bool \<Rightarrow> string option" where
  "item_name node_name name0 used unreachable =
     (let name1 = (if unreachable then None
                   else if truthy node_name then node_name else name0)
      in case used of
           None \<Rightarrow> name1
         | Some u \<Rightarrow> (case name1 of
                        None \<Rightarrow> None
                      | Some n \<Rightarrow> if n \<notin> u then None else name1))"

definition print_item :: "string option \<Rightarrow> string \<Rightarrow> gen_state \<Rightarrow> error + gen_state" where
  "print_item name call s =
     (if \<not> truthy name then Inr (gen_print (''('' @ call @ '')'') s)
      else (let n = the name in
            if n \<noteq> ''cut''
            then (case dedupe n s of
                    Inl e \<Rightarrow> Inl e
                  | Inr (n', s2) \<Rightarrow>
                      Inr (gen_print (''(var '' @ n' @ '' '' @ call @ '')'') s2))
            else Inr (gen_print (''(var '' @ n @ '' '' @ call @ '')'') s)))"

definition gen_visit_NamedItem ::
  "host \<Rightarrow> named_item \<Rightarrow> string set option \<Rightarrow> bool \<Rightarrow> gen_state \<Rightarrow> error + gen_state" where
  "gen_visit_NamedItem h node used unreachable s =
     (case node of NamedItem node_name it \<Rightarrow>
       (case cm_visit h it s of
          Inl e \<Rightarrow> Inl e
        | Inr ((name0, call), s1) \<Rightarrow>
            print_item (item_name node_name name0 used unreachable) call s1))"

text \<open>The loop over the items of an alternative, in \<^verbatim>\<open>visit_Alt\<close>.\<close>

fun visit_items ::
  "host \<Rightarrow> bool \<Rightarrow> string set option \<Rightarrow> bool \<Rightarrow> named_item list \<Rightarrow> gen_state \<Rightarrow> error + gen_state" where
  "visit_items h gather used unreachable [] s = Inr s"
| "visit_items h gather used unreachable (item # rest) s =
     (let s1 = (if gather then gen_print ''(not (nil? '' s else s)
      in case gen_visit_NamedItem h item used unreachable s1 of
           Inl e \<Rightarrow> Inl e
         | Inr s2 \<Rightarrow>
             visit_items h gather used unreachable rest
               (if gather then gen_print ''))'' s2 else s2))"

text \<open>\<^verbatim>\<open>", ".join(names)\<close>.\<close>

fun join_comma :: "string list \<Rightarrow> string" where
  "join_comma [] = []"
| "join_comma [x] = x"
| "join_comma (x # y # rest) = x @ '', '' @ join_comma (y # rest)"

text \<open>
  The action text that \<^verbatim>\<open>print_action\<close> settles on: the given one when it is not empty,
  and otherwise one built from the local names, which are read only in the branches that
  use them. With no action in an alternative that has an invalid item, the two
  assertions need \<^verbatim>\<open>unreachable\<close> and a string, and the empty action stays.
\<close>

definition default_action ::
  "string option \<Rightarrow> bool \<Rightarrow> bool \<Rightarrow> bool \<Rightarrow> gen_state \<Rightarrow> error + string" where
  "default_action action unreachable gather has_invalid s =
     (if truthy action then Inr (the action)
      else if gather
      then (case local_variable_names s of
              Inl e \<Rightarrow> Inl e
            | Inr names \<Rightarrow>
                if length names = 2
                then Inr (''['' @ names ! 0 @ ''] + '' @ names ! 1)
                else Inl AssertionError)
      else if has_invalid
      then (if \<not> unreachable then Inl AssertionError
            else (case action of None \<Rightarrow> Inl AssertionError | Some a \<Rightarrow> Inr a))
      else (case local_variable_names s of
              Inl e \<Rightarrow> Inl e
            | Inr names \<Rightarrow>
                if length names = 1 then Inr (names ! 0)
                else Inr (''['' @ join_comma names @ '']'')))"

definition print_action ::
  "string option \<Rightarrow> bool \<Rightarrow> bool \<Rightarrow> bool \<Rightarrow> bool \<Rightarrow> bool \<Rightarrow> gen_state \<Rightarrow> error + gen_state" where
  "print_action action locations unreachable gather loop has_invalid s =
     (case default_action action unreachable gather has_invalid s of
        Inl e \<Rightarrow> Inl e
      | Inr act \<Rightarrow>
          (let s1 = (if locations
                     then gen_print ''(var [end_lineno end_col_offset] (tok :end))''
                            (gen_print ''(var tok (:get_last_non_whitespace_token (self :_tokenizer)))'' s)
                     else s)
           in if loop
              then Inr (gen_print ''(set mark self._mark())''
                          (gen_print (''(array/push children '' @ act @ '')'') s1))
              else Inr (add_return act s1)))"

definition has_cut :: "named_item list \<Rightarrow> bool" where
  "has_cut items = (\<exists>ni \<in> set items. case ni of NamedItem nm it \<Rightarrow> it = Cut)"

text \<open>
  The action, and the two flags, as \<^verbatim>\<open>visit_Alt\<close> works them out before it prints. The
  branch of the source that would collect the used names is switched off
  (\<^verbatim>\<open>if False\<close>), so \<^verbatim>\<open>used\<close> stays \<^verbatim>\<open>None\<close>.
\<close>

definition alt_action :: "host \<Rightarrow> alt \<Rightarrow> bool \<Rightarrow> string option \<times> bool \<times> bool" where
  "alt_action h node gather =
     (case node of Alt items action0 \<Rightarrow>
       (let has_invalid = invalid_visit_Alt node;
            action1 = (if \<not> truthy action0 \<and> \<not> gather \<and> has_invalid
                       then Some ''UNREACHABLE'' else action0)
        in if truthy action1
           then (let a = the action1;
                     locations = contains ''LOCATIONS'' a;
                     a1 = (if locations then replace a ''LOCATIONS'' (location_formatting h) else a);
                     unreachable = contains ''UNREACHABLE'' a1;
                     a2 = (if unreachable then replace a1 ''UNREACHABLE'' (unreachable_formatting h)
                           else a1)
                 in (Some a2, locations, unreachable))
           else (action1, False, False)))"

definition gen_visit_Alt :: "host \<Rightarrow> alt \<Rightarrow> bool \<Rightarrow> bool \<Rightarrow> gen_state \<Rightarrow> error + gen_state" where
  "gen_visit_Alt h node loop gather s =
     (case node of Alt items action0 \<Rightarrow>
       (let cut = has_cut items;
            has_invalid = invalid_visit_Alt node;
            (action, locations, unreachable) = alt_action h node gather;
            s1 = push_locals s;
            s2 = (if cut then gen_print ''(set cut False)'' s1 else s1);
            s3 = (if loop then gen_print ''(while (and '' s2 else gen_print ''(when (and '' s2);
            s4 = indent s3;
            s5 = (if has_invalid then gen_print ''(self :call_invalid_rules)'' s4 else s4)
        in case visit_items h gather None unreachable items s5 of
             Inl e \<Rightarrow> Inl e
           | Inr s6 \<Rightarrow>
               (let s7 = gen_print '')'' (dedent s6)
                in case print_action action locations unreachable gather loop has_invalid
                          (indent s7) of
                     Inl e \<Rightarrow> Inl e
                   | Inr s8 \<Rightarrow>
                       (let s9 = gen_print ''(:_reset self mark)'' (dedent s8);
                            s10 = (if cut then gen_print ''(when cut (return nil))'' s9 else s9)
                        in Inr (pop_locals s10)))))"

fun visit_alts :: "host \<Rightarrow> bool \<Rightarrow> bool \<Rightarrow> alt list \<Rightarrow> gen_state \<Rightarrow> error + gen_state" where
  "visit_alts h loop gather [] s = Inr s"
| "visit_alts h loop gather (a # rest) s =
     (case gen_visit_Alt h a loop gather s of
        Inl e \<Rightarrow> Inl e
      | Inr s1 \<Rightarrow> visit_alts h loop gather rest s1)"

definition gen_visit_Rhs :: "host \<Rightarrow> rhs \<Rightarrow> bool \<Rightarrow> bool \<Rightarrow> gen_state \<Rightarrow> error + gen_state" where
  "gen_visit_Rhs h node loop gather s =
     (case node of Rhs i alts \<Rightarrow>
        if loop \<and> length alts \<noteq> 1 then Inl AssertionError
        else visit_alts h loop gather alts s)"

definition decorators :: "rule \<Rightarrow> string list" where
  "decorators node =
     (if left_recursive node
      then (if leader node then [''memoize_left_rec''] else [''@logger''])
      else [''@memoize''])"

text \<open>\<^verbatim>\<open>','.join(decorators)\<close>.\<close>

fun join_tight :: "string list \<Rightarrow> string" where
  "join_tight [] = []"
| "join_tight [x] = x"
| "join_tight (x # y # rest) = x @ '','' @ join_tight (y # rest)"

definition definition_line :: "rule \<Rightarrow> string" where
  "definition_line node =
     (let decorator_array_repr = ''['' @ join_tight (decorators node) @ '']'';
          definition_type = (if decorators node \<noteq> [] then ''decorated-defn'' else ''defn'')
      in ''('' @ definition_type @ '' '' @ decorator_array_repr @ '' '' @ rule_name node @ '' [self]'')"

definition without_invalid :: "rule \<Rightarrow> bool" where
  "without_invalid node = endswith (rule_name node) ''without_invalid''"

definition restore_stmt :: string where
  "restore_stmt = ''(set self :call_invalid_rules _prev_call_invalid)''"

definition gen_visit_Rule :: "host \<Rightarrow> rule \<Rightarrow> gen_state \<Rightarrow> error + gen_state" where
  "gen_visit_Rule h node s =
     (let loop = is_loop node;
          gather = is_gather node;
          r = flatten node;
          s1 = indent (gen_print (definition_line node) s);
          s2 = gen_print (''# '' @ rule_name node @ '': '' @ rhs_str h r) s1;
          s3 = (if nullable node then gen_print ''# nullable=True'' s2 else s2);
          s4 = (if without_invalid node
                then (let t1 = gen_print ''(def _prev_call_invalid (self :call_invalid_rules))'' s3;
                          t2 = gen_print ''(set self :call_invalid_rules False)'' t1
                      in t2\<lparr>cleanup_statements := cleanup_statements t2 @ [restore_stmt]\<rparr>)
                else s3);
          s5 = gen_print ''(var mark (:_mark self))'' s4;
          s6 = (if alts_uses_locations (case rule_rhs node of Rhs i alts \<Rightarrow> alts)
                then gen_print ''(var [start_lineno start_col_offset] tok.start)''
                       (gen_print ''(var tok (:peek (self :_tokenizer)))'' s5)
                else s5);
          s7 = (if loop then gen_print ''(def children @[])'' s6 else s6)
      in case gen_visit_Rhs h r loop gather s7 of
           Inl e \<Rightarrow> Inl e
         | Inr s8 \<Rightarrow>
             (let s9 = (if loop then add_return ''children'' s8 else add_return ''None'' s8);
                  s10 = gen_print '')'' (dedent s9)
              in Inr (if without_invalid node
                      then s10\<lparr>cleanup_statements := butlast (cleanup_statements s10)\<rparr>
                      else s10)))"

section \<open>The generation entry point\<close>

text \<open>
  A grammar as \<^verbatim>\<open>generate\<close> reads it: the rules in declaration order and the metas, a
  dict from a name to an optional text.
\<close>

record grammar =
  grammar_rules :: "rule list"
  grammar_metas :: "string \<Rightarrow> string option option"

definition newline :: char where
  "newline = CHR 0x0A"

definition MODULE_PREFIX :: string where
  "MODULE_PREFIX =
     ''#!/usr/bin/env janet'' @ [newline]
     @ ''# @generated by pegen from {filename}'' @ [newline]
     @ [newline]
     @ ''(use pegen/parser/helpers)'' @ [newline]"

definition MODULE_SUFFIX :: string where
  "MODULE_SUFFIX =
     [newline] @ [newline]
     @ ''if __name__ == '' @ [squote] @ ''__main__'' @ [squote] @ '':'' @ [newline]
     @ ''    (import pegen/parser)'' @ [newline]
     @ ''    (pegen/parser/simple_parser_main {class_name})'' @ [newline]"

text \<open>\<^verbatim>\<open>s.rstrip("\n")\<close>.\<close>

definition rstrip_nl :: "string \<Rightarrow> string" where
  "rstrip_nl s = rev (dropWhile (\<lambda>c. c = newline) (rev s))"

text \<open>\<^verbatim>\<open>metas.get(key, default)\<close>.\<close>

definition metas_get :: "grammar \<Rightarrow> string \<Rightarrow> string option \<Rightarrow> string option" where
  "metas_get g key dflt = (case grammar_metas g key of None \<Rightarrow> dflt | Some v \<Rightarrow> v)"

text \<open>An optional text inside an f-string.\<close>

definition fmt_opt :: "string option \<Rightarrow> string" where
  "fmt_opt v = (case v of None \<Rightarrow> ''None'' | Some t \<Rightarrow> t)"

text \<open>
  \<^verbatim>\<open>tuple(sorted(names))\<close> inside an f-string: the \<^verbatim>\<open>repr\<close> of a tuple of strings. The names
  are keywords, made of letters, digits and underscores, so the \<^verbatim>\<open>repr\<close> of each is the
  name in single quotes.
\<close>

definition py_repr :: "string \<Rightarrow> string" where
  "py_repr t = [squote] @ t @ [squote]"

definition tuple_repr :: "string list \<Rightarrow> string" where
  "tuple_repr xs =
     (case xs of
        [] \<Rightarrow> ''()''
      | [x] \<Rightarrow> ''('' @ py_repr x @ '',)''
      | _ \<Rightarrow> ''('' @ join_comma (map py_repr xs) @ '')'')"

definition keywords_table :: "gen_state \<Rightarrow> string list" where
  "keywords_table s = sorted_list_of_fset (exact_keywords s)"

definition soft_keywords_table :: "gen_state \<Rightarrow> string list" where
  "soft_keywords_table s = sorted_list_of_fset (soft_keywords s)"

text \<open>
  The \<^verbatim>\<open>for\<close> loop of \<^verbatim>\<open>generate\<close>, over the snapshot \<^verbatim>\<open>list(self.todo.items())\<close>: the rule's
  name is deleted from the worklist (a \<^verbatim>\<open>KeyError\<close> if it is not there), an empty line
  is printed, and the rule is visited one level in.
\<close>

fun emit_rules :: "host \<Rightarrow> (string \<times> rule) list \<Rightarrow> gen_state \<Rightarrow> error + gen_state" where
  "emit_rules h [] s = Inr s"
| "emit_rules h ((rulename, r) # rest) s =
     (if rulename \<notin> fst ` set (todo s) then Inl KeyError
      else (let s1 = s\<lparr>todo := filter (\<lambda>p. fst p \<noteq> rulename) (todo s)\<rparr>;
                s2 = indent (print_empty s1)
            in case gen_visit_Rule h r s2 of
                 Inl e \<Rightarrow> Inl e
               | Inr s3 \<Rightarrow> emit_rules h rest (dedent s3)))"

text \<open>
  The \<^verbatim>\<open>while self.todo\<close> loop. It is a partial function: \<^verbatim>\<open>None\<close> is a loop that does not
  end.
\<close>

partial_function (option) drain :: "host \<Rightarrow> gen_state \<Rightarrow> (error + gen_state) option" where
  "drain h s =
     (if todo s = [] then Some (Inr s)
      else (case emit_rules h (todo s) s of
              Inl e \<Rightarrow> Some (Inl e)
            | Inr s1 \<Rightarrow> drain h s1))"

text \<open>What \<^verbatim>\<open>generate\<close> prints before the loop.\<close>

definition print_preamble :: "host \<Rightarrow> grammar \<Rightarrow> string \<Rightarrow> gen_state \<Rightarrow> error + gen_state" where
  "print_preamble h g filename s =
     (case (case metas_get g ''header'' (Some MODULE_PREFIX) of
              None \<Rightarrow> Inr s
            | Some header \<Rightarrow>
                (case format_filename h (rstrip_nl header) filename of
                   None \<Rightarrow> Inl FormatError
                 | Some t \<Rightarrow> Inr (gen_print t s))) of
        Inl e \<Rightarrow> Inl e
      | Inr s1 \<Rightarrow>
          (let subheader = metas_get g ''subheader'' (Some []);
               s2 = (if truthy subheader then gen_print (the subheader) s1 else s1);
               cls_name = metas_get g ''class'' (Some ''GeneratedParser'');
               s3 = gen_print
                      ''# Keywords and soft keywords are listed at the end of the parser definition.''
                      s2
           in Inr (gen_print (''(defparser '' @ fmt_opt cls_name) s3)))"

text \<open>What \<^verbatim>\<open>generate\<close> prints after the loop: the two tables and the trailer.\<close>

definition print_tables :: "grammar \<Rightarrow> gen_state \<Rightarrow> gen_state" where
  "print_tables g s =
     (let s1 = indent (print_empty s);
          s2 = gen_print (''(def KEYWORDS '' @ tuple_repr (keywords_table s1) @ '')'') s1;
          s3 = gen_print (''(def SOFT_KEYWORDS '' @ tuple_repr (soft_keywords_table s2) @ '')'') s2;
          s4 = dedent s3;
          cls_name = metas_get g ''class'' (Some ''GeneratedParser'');
          trailer = metas_get g ''trailer''
                      (Some (replace MODULE_SUFFIX ''{class_name}'' (fmt_opt cls_name)))
      in case trailer of None \<Rightarrow> s4 | Some t \<Rightarrow> gen_print (rstrip_nl t) s4)"

definition generate :: "host \<Rightarrow> grammar \<Rightarrow> string \<Rightarrow> gen_state \<Rightarrow> (error + gen_state) option" where
  "generate h g filename s =
     (case print_preamble h g filename s of
        Inl e \<Rightarrow> Some (Inl e)
      | Inr s1 \<Rightarrow>
          (case drain h s1 of
             None \<Rightarrow> None
           | Some (Inl e) \<Rightarrow> Some (Inl e)
           | Some (Inr s2) \<Rightarrow> Some (Inr (print_tables g s2))))"

section \<open>Construction\<close>

text \<open>
  Modelled from the spec: \<^verbatim>\<open>ParserGenerator.__init__\<close> of \<^verbatim>\<open>pegen/parser_generator.py\<close>, which
  is not among the sources: the worklist starts as the grammar's rules, in declaration
  order ("authored rules in declaration order"), and nothing has been written.
  \<^verbatim>\<open>JanetParserGenerator.__init__\<close> then makes a call maker with an empty cache and empty
  keyword sets, and an empty list of cleanup statements.
\<close>

definition init_state :: "rule list \<Rightarrow> gen_state" where
  "init_state rules =
     \<lparr> out = [], level = 0, todo = map (\<lambda>r. (rule_name r, r)) rules, counter = 0,
       cache = Map.empty, exact_keywords = {||}, soft_keywords = {||},
       local_variable_stack = [], cleanup_statements = [] \<rparr>"

text \<open>
  A host for evaluating the model on the example grammars of this theory. Its
  \<^verbatim>\<open>literal_eval\<close> is the table of \<^verbatim>\<open>ast.literal_eval\<close> on the four string literals that
  these grammars use, \<^verbatim>\<open>'+'\<close>, \<^verbatim>\<open>','\<close>, \<^verbatim>\<open>'if'\<close> and \<^verbatim>\<open>"if"\<close>; it says nothing of any
  other literal, and no theorem about an arbitrary host rests on it. Its keyword match
  is the pattern on ASCII text, its \<^verbatim>\<open>str.format\<close> is for a template whose only braces are
  those of \<^verbatim>\<open>{filename}\<close>, it gives a fixed text for every right-hand side, and it has the
  constructor's default formatting texts.
\<close>

definition example_literals :: "(string \<times> string) list" where
  "example_literals =
     [([squote] @ ''+'' @ [squote], ''+''),
      ([squote] @ '','' @ [squote], '',''),
      ([squote] @ ''if'' @ [squote], ''if''),
      ([dquote] @ ''if'' @ [dquote], ''if'')]"

definition default_location_formatting :: string where
  "default_location_formatting =
     ''{:lineno start_lineno :cool_offset start_col_offset''
     @ '' :end_lineno end_lineno :end_col_offset end_col_offset}''"

definition default_unreachable_formatting :: string where
  "default_unreachable_formatting = ''None  # pragma: no cover''"

definition plain_host :: host where
  "plain_host = \<lparr> literal_eval = map_of example_literals,
     keyword_match = is_keyword_text,
     format_filename = (\<lambda>template filename. Some (replace template ''{filename}'' filename)),
     rhs_str = (\<lambda>r. ''...''),
     location_formatting = default_location_formatting,
     unreachable_formatting = default_unreachable_formatting \<rparr>"

text \<open>
  The grammar \<^verbatim>\<open>start: NAME '+' NUMBER\<close> as the grammar parser builds it: one rule with one
  alternative of three unnamed items and no action, not nullable and not left-recursive.
  The string leaf holds the literal as it is written, quotes included.
\<close>

definition plus_literal :: string where
  "plus_literal = [squote] @ ''+'' @ [squote]"

definition start_rhs :: rhs where
  "start_rhs = Rhs 1 [Alt [NamedItem None (NameLeaf ''NAME''),
                           NamedItem None (StringLeaf plus_literal),
                           NamedItem None (NameLeaf ''NUMBER'')] None]"

definition start_rule :: rule where
  "start_rule = \<lparr> rule_name = ''start'', rule_type = None, rule_rhs = start_rhs,
     nullable = False, left_recursive = False, leader = False \<rparr>"

text \<open>
  Two alternatives with a cut. The first is \<^verbatim>\<open>NAME ~ NUMBER\<close>, and \<^verbatim>\<open>cut_rule\<close> is the rule
  \<^verbatim>\<open>pair_without_invalid: NAME ~ NUMBER\<close>. The second is \<^verbatim>\<open>~ invalid_pair\<close>: it has an item
  that the visitor for invalid rules accepts and no action, so that \<^verbatim>\<open>visit_Alt\<close> gives it the
  action \<^verbatim>\<open>UNREACHABLE\<close>.
\<close>

definition cut_alt :: alt where
  "cut_alt = Alt ([NamedItem None (NameLeaf ''NAME'')] @ NamedItem None Cut
                    # [NamedItem None (NameLeaf ''NUMBER'')]) None"

definition cut_rule :: rule where
  "cut_rule = \<lparr> rule_name = ''pair_without_invalid'', rule_type = None,
     rule_rhs = Rhs 1 [cut_alt], nullable = False, left_recursive = False, leader = False \<rparr>"


section \<open>Invariants of the cache\<close>

text \<open>
  What every entry of the call maker's cache satisfies, by the kind of node it is for:
  no call text ends in two separators, a zero-or-more repeat's call ends in one, a
  one-or-more repeat's and a gather's in none.
\<close>

definition entry_ok :: "node_key \<Rightarrow> string \<Rightarrow> bool" where
  "entry_ok k call = (\<not> endswith call '',,'' \<and>
     (case k of KRepeat0 i \<Rightarrow> endswith call '',''
              | KRepeat1 i \<Rightarrow> \<not> endswith call '',''
              | KGather i \<Rightarrow> \<not> endswith call '',''
              | KRhs i \<Rightarrow> True))"

definition cache_ok :: "(node_key \<Rightarrow> (string option \<times> string) option) \<Rightarrow> bool" where
  "cache_ok c = (\<forall>k nm call. c k = Some (nm, call) \<longrightarrow> entry_ok k call)"

definition vis_ok :: "('a \<Rightarrow> gen_state \<Rightarrow> (string option \<times> string) result) \<Rightarrow> 'a \<Rightarrow> bool" where
  "vis_ok f x = (\<forall>s r s'. cache_ok (cache s) \<longrightarrow> f x s = Inr (r, s') \<longrightarrow>
     cache_ok (cache s') \<and> \<not> endswith (snd r) '',,'')"

text \<open>
  Relations between the state before a visit and the state after it. \<^verbatim>\<open>steps_ok R\<close> says
  that \<^verbatim>\<open>R\<close> is kept by each elementary step of the call maker; a write into the cache is
  a step only for a key that was absent when the visit began. \<^verbatim>\<open>same_text\<close>: nothing was
  printed and the emitter's fields are as they were. \<^verbatim>\<open>cache_le\<close>: every entry of the cache
  is still there, unchanged.
\<close>

definition steps_ok :: "(gen_state \<Rightarrow> gen_state \<Rightarrow> bool) \<Rightarrow> bool" where
  "steps_ok R = ((\<forall>s. R s s) \<and> (\<forall>s t u. R s t \<longrightarrow> R t u \<longrightarrow> R s u)
     \<and> (\<forall>h v s r s'. visit_StringLeaf h v s = Inr (r, s') \<longrightarrow> R s s')
     \<and> (\<forall>n b s. R s (snd (name_loop n b s)))
     \<and> (\<forall>g s. R s (snd (name_node g s)))
     \<and> (\<forall>a b s. R s (snd (name_gather a b s)))
     \<and> (\<forall>s t k r. R s t \<longrightarrow> cache s k = None \<longrightarrow> R s (t\<lparr>cache := (cache t)(k \<mapsto> r)\<rparr>)))"

definition rel_ok :: "(gen_state \<Rightarrow> gen_state \<Rightarrow> bool) \<Rightarrow> ('a \<Rightarrow> gen_state \<Rightarrow> (string option \<times> string) result) \<Rightarrow> 'a \<Rightarrow> bool" where
  "rel_ok R f x = (\<forall>s r s'. f x s = Inr (r, s') \<longrightarrow> R s s')"

definition same_text :: "gen_state \<Rightarrow> gen_state \<Rightarrow> bool" where
  "same_text s s' = (out s' = out s \<and> level s' = level s
     \<and> local_variable_stack s' = local_variable_stack s
     \<and> cleanup_statements s' = cleanup_statements s)"

definition cache_le :: "gen_state \<Rightarrow> gen_state \<Rightarrow> bool" where
  "cache_le s s' = (\<forall>k v. cache s k = Some v \<longrightarrow> cache s' k = Some v)"

text \<open>
  \<^verbatim>\<open>grows\<close>: what the emitter's methods do to the state between their entry and their
  return. The cache keeps its entries, the text written so far is still there with more
  after it, and the list of cleanup statements is as it was.
\<close>

definition grows :: "gen_state \<Rightarrow> gen_state \<Rightarrow> bool" where
  "grows s s' = (cache_le s s' \<and> (\<exists>ls. out s' = out s @ ls)
     \<and> cleanup_statements s' = cleanup_statements s)"

section \<open>Revisits\<close>

text \<open>
  The nodes that the call maker caches, each with the key of its entry: the right-hand
  side of a group (\<^verbatim>\<open>visit_Group\<close> visits it, and \<^verbatim>\<open>visit_Rhs\<close> caches), a repeat and a
  gather.
\<close>

fun cache_key :: "item \<Rightarrow> node_key option" where
  "cache_key (Group (Rhs i alts)) = Some (KRhs i)"
| "cache_key (Repeat0 i node) = Some (KRepeat0 i)"
| "cache_key (Repeat1 i node) = Some (KRepeat1 i)"
| "cache_key (Gather i separator node) = Some (KGather i)"
| "cache_key node = None"

text \<open>
  \<^verbatim>\<open>later h s t\<close>: the generator can be in state \<^verbatim>\<open>t\<close> some time after it was in state \<^verbatim>\<open>s\<close>.
  Between the two it has visited items with the call maker, emitted rules one by one or
  in the loop of \<^verbatim>\<open>generate\<close>, and taken steps that do not write the cache: printing,
  indenting, naming local variables, deleting a rule from the worklist.
\<close>

inductive later :: "host \<Rightarrow> gen_state \<Rightarrow> gen_state \<Rightarrow> bool" for h :: host where
  later_now: "later h s s"
| later_visit: "later h s t \<Longrightarrow> cm_visit h it t = Inr (r, u) \<Longrightarrow> later h s u"
| later_alt: "later h s t \<Longrightarrow> gen_visit_Alt h a loop gather t = Inr u \<Longrightarrow> later h s u"
| later_rule: "later h s t \<Longrightarrow> gen_visit_Rule h node t = Inr u \<Longrightarrow> later h s u"
| later_emit: "later h s t \<Longrightarrow> emit_rules h rs t = Inr u \<Longrightarrow> later h s u"
| later_other: "later h s t \<Longrightarrow> cache u = cache t \<Longrightarrow> later h s u"

section \<open>Call texts and the cache invariant\<close>

lemma endswith_comma: "endswith s '','' \<longleftrightarrow> s \<noteq> [] \<and> last s = CHR '',''"
proof (cases s rule: rev_cases)
  case Nil then show ?thesis by (simp add: endswith_def)
next
  case (snoc ys y) then show ?thesis by (auto simp: endswith_def)
qed

lemma endswith_comma2:
  "endswith s '',,'' \<longleftrightarrow> s \<noteq> [] \<and> last s = CHR '','' \<and> butlast s \<noteq> [] \<and> last (butlast s) = CHR '',''"
proof (cases s rule: rev_cases)
  case Nil then show ?thesis by (simp add: endswith_def)
next
  case (snoc ys y)
  show ?thesis
  proof (cases ys rule: rev_cases)
    case Nil with snoc show ?thesis by (simp add: endswith_def)
  next
    case (snoc zs z)
    with \<open>s = ys @ [y]\<close> show ?thesis by (auto simp: endswith_def butlast_append)
  qed
qed



lemma cache_ok_upd: "cache_ok c \<Longrightarrow> entry_ok k call \<Longrightarrow> cache_ok (c(k \<mapsto> (nm, call)))"
  by (auto simp: cache_ok_def)


lemma name_loop_cache: "name_loop n b s = (nm, s1) \<Longrightarrow> cache s1 = cache s"
  by (auto simp: name_loop_def Let_def)
lemma name_node_cache: "name_node r s = (nm, s1) \<Longrightarrow> cache s1 = cache s"
  by (auto simp: name_node_def Let_def)
lemma name_gather_cache: "name_gather a b s = (nm, s1) \<Longrightarrow> cache s1 = cache s"
  by (auto simp: name_gather_def Let_def)

lemma visit_NameLeaf_call: "visit_NameLeaf n = Inr (nm, call) \<Longrightarrow> call \<noteq> [] \<and> last call = CHR '')''"
  unfolding visit_NameLeaf_def
  by (auto split: if_splits sum.splits simp del: list.set set_simps)

lemma visit_StringLeaf_call:
  "visit_StringLeaf h v s = Inr ((nm, call), s') \<Longrightarrow> call \<noteq> [] \<and> last call = CHR '')'' \<and> cache s' = cache s"
  unfolding visit_StringLeaf_def
  by (auto simp: Let_def split: if_splits sum.splits option.splits)

lemma forced_leaf_call: "forced_leaf it = Inr (nm, call) \<Longrightarrow> call \<noteq> [] \<and> last call = CHR '')''"
  by (auto simp: forced_leaf_def split: sum.splits)

lemma forced_group_call: "forced_group h r v = Inr (nm, call) \<Longrightarrow> call \<noteq> [] \<and> last call = CHR '')''"
  by (auto simp: forced_group_def split: sum.splits)

lemma opt_call_ok: "\<not> endswith call '',,'' \<Longrightarrow> endswith (opt_call call) '','' \<and> \<not> endswith (opt_call call) '',,''"
  by (auto simp: opt_call_def endswith_comma endswith_comma2)

lemma paren_no_dd: "call \<noteq> [] \<Longrightarrow> last call = CHR '')'' \<Longrightarrow> \<not> endswith call '',,''"
  by (simp add: endswith_comma2)

lemma entry_self_comma: "entry_ok (KRepeat0 i) (''(self '' @ name @ ''),'')"
  by (simp add: entry_ok_def endswith_comma endswith_comma2 butlast_append)

lemma entry_self1: "entry_ok (KRepeat1 i) (''(self '' @ name @ '')'')"
  by (simp add: entry_ok_def endswith_comma endswith_comma2)

lemma entry_selfg: "entry_ok (KGather i) (''(self '' @ name @ '')'')"
  by (simp add: entry_ok_def endswith_comma endswith_comma2)

lemma entry_rhs: "\<not> endswith call '',,'' \<Longrightarrow> entry_ok (KRhs i) call"
  by (simp add: entry_ok_def)

lemma entry_no_dd: "entry_ok k call \<Longrightarrow> \<not> endswith call '',,''"
  by (simp add: entry_ok_def)

lemma cache_okD: "cache_ok c \<Longrightarrow> c k = Some (nm, call) \<Longrightarrow> entry_ok k call"
  by (auto simp: cache_ok_def)

lemma visit_Repeat0_res:
  assumes "cm_visit h (Repeat0 i node) s = Inr (r, s')" "cache_ok (cache s)"
  shows "cache_ok (cache s') \<and> entry_ok (KRepeat0 i) (snd r)"
proof (cases "cache s (KRepeat0 i)")
  case None
  obtain name s1 where n: "name_loop node False s = (name, s1)" by (cases "name_loop node False s")
  from assms(1) None n have r: "r = (Some name, ''(self '' @ name @ ''),'')"
    and s': "s' = s1\<lparr>cache := (cache s1)(KRepeat0 i \<mapsto> r)\<rparr>" by (auto simp: Let_def)
  from name_loop_cache[OF n] assms(2) show ?thesis
    using r s' entry_self_comma[of i name] by (simp add: cache_ok_upd)
next
  case (Some a)
  with assms show ?thesis by (cases a) (auto dest: cache_okD)
qed

lemma visit_Repeat1_res:
  assumes "cm_visit h (Repeat1 i node) s = Inr (r, s')" "cache_ok (cache s)"
  shows "cache_ok (cache s') \<and> entry_ok (KRepeat1 i) (snd r)"
proof (cases "cache s (KRepeat1 i)")
  case None
  obtain name s1 where n: "name_loop node True s = (name, s1)" by (cases "name_loop node True s")
  from assms(1) None n have r: "r = (Some name, ''(self '' @ name @ '')'')"
    and s': "s' = s1\<lparr>cache := (cache s1)(KRepeat1 i \<mapsto> r)\<rparr>" by (auto simp: Let_def)
  from name_loop_cache[OF n] assms(2) show ?thesis
    using r s' entry_self1[of i name] by (simp add: cache_ok_upd)
next
  case (Some a)
  with assms show ?thesis by (cases a) (auto dest: cache_okD)
qed

lemma visit_Gather_res:
  assumes "cm_visit h (Gather i sep node) s = Inr (r, s')" "cache_ok (cache s)"
  shows "cache_ok (cache s') \<and> entry_ok (KGather i) (snd r)"
proof (cases "cache s (KGather i)")
  case None
  obtain name s1 where n: "name_gather sep node s = (name, s1)" by (cases "name_gather sep node s")
  from assms(1) None n have r: "r = (Some name, ''(self '' @ name @ '')'')"
    and s': "s' = s1\<lparr>cache := (cache s1)(KGather i \<mapsto> r)\<rparr>" by (auto simp: Let_def)
  from name_gather_cache[OF n] assms(2) show ?thesis
    using r s' entry_selfg[of i name] by (simp add: cache_ok_upd)
next
  case (Some a)
  with assms show ?thesis by (cases a) (auto dest: cache_okD)
qed



lemma vis_okI:
  "(\<And>s r s'. cache_ok (cache s) \<Longrightarrow> f x s = Inr (r, s') \<Longrightarrow>
      cache_ok (cache s') \<and> \<not> endswith (snd r) '',,'') \<Longrightarrow> vis_ok f x"
  by (auto simp: vis_ok_def)

lemma vis_okD:
  "vis_ok f x \<Longrightarrow> cache_ok (cache s) \<Longrightarrow> f x s = Inr (r, s') \<Longrightarrow>
      cache_ok (cache s') \<and> \<not> endswith (snd r) '',,''"
  unfolding vis_ok_def by blast

lemma lookahead_no_dd:
  "\<not> endswith (''(self positive_lookahead '' @ hd' @ '' '' @ tl' @ '')'') '',,''"
  "\<not> endswith (''(self negative_lookahead '' @ hd' @ '' '' @ tl' @ '')'') '',,''"
  by (simp_all add: endswith_comma2)

lemma cm_visit_Rhs_single:
  "cache s (KRhs i) = None \<Longrightarrow>
   cm_visit_Rhs h (Rhs i [Alt [ni] act]) s =
     (case cm_visit_NamedItem h ni s of
        Inl e \<Rightarrow> Inl e
      | Inr (r, s1) \<Rightarrow> Inr (r, s1\<lparr>cache := (cache s1)(KRhs i \<mapsto> r)\<rparr>))"
  by simp

lemma cm_visit_Rhs_synth:
  "cache s (KRhs i) = None \<Longrightarrow> \<not> (\<exists>ni act. alts = [Alt [ni] act]) \<Longrightarrow>
   cm_visit_Rhs h (Rhs i alts) s =
     (let (name, s1) = name_node (Rhs i alts) s;
          r = (Some name, ''(self '' @ name @ '')'')
      in Inr (r, s1\<lparr>cache := (cache s1)(KRhs i \<mapsto> r)\<rparr>))"
  by (auto split: list.splits alt.splits)

lemma vis_Rhs:
  assumes ih: "\<And>a. a \<in> set alts \<Longrightarrow> (case a of Alt nis act \<Rightarrow> \<forall>ni\<in>set nis. vis_ok (cm_visit_NamedItem h) ni)"
  shows "vis_ok (cm_visit_Rhs h) (Rhs i alts)"
proof (rule vis_okI)
  fix s r s'
  assume ok: "cache_ok (cache s)" and v: "cm_visit_Rhs h (Rhs i alts) s = Inr (r, s')"
  show "cache_ok (cache s') \<and> \<not> endswith (snd r) '',,''"
  proof (cases "cache s (KRhs i)")
    case (Some a)
    with v ok show ?thesis by (cases a) (auto dest!: cache_okD entry_no_dd)
  next
    case None
    show ?thesis
    proof (cases "\<exists>ni act. alts = [Alt [ni] act]")
      case True
      then obtain ni act where alts: "alts = [Alt [ni] act]" by blast
      with ih[of "Alt [ni] act"] have vni: "vis_ok (cm_visit_NamedItem h) ni" by simp
      from v None alts obtain s1 where s1: "cm_visit_NamedItem h ni s = Inr (r, s1)"
        and s': "s' = s1\<lparr>cache := (cache s1)(KRhs i \<mapsto> r)\<rparr>"
        by (auto split: sum.splits)
      from vis_okD[OF vni ok s1] show ?thesis using s'
        by (cases r) (simp add: cache_ok_upd entry_rhs)
    next
      case False
      obtain name s1 where n: "name_node (Rhs i alts) s = (name, s1)" by (cases "name_node (Rhs i alts) s")
      from v n cm_visit_Rhs_synth[OF None False, of h] have r: "r = (Some name, ''(self '' @ name @ '')'')"
        and s': "s' = s1\<lparr>cache := (cache s1)(KRhs i \<mapsto> r)\<rparr>" by (auto simp: Let_def)
      have "entry_ok (KRhs i) (''(self '' @ name @ '')'')" by (simp add: entry_ok_def endswith_comma2)
      with name_node_cache[OF n] ok r s' show ?thesis
        by (simp add: cache_ok_upd entry_ok_def)
    qed
  qed
qed

lemma vis_Opt:
  assumes "vis_ok (cm_visit h) x"
  shows "vis_ok (cm_visit h) (Opt x)"
proof (rule vis_okI)
  fix s r s'
  assume ok: "cache_ok (cache s)" and v: "cm_visit h (Opt x) s = Inr (r, s')"
  from v obtain name call where i: "cm_visit h x s = Inr ((name, call), s')"
    and r: "r = (Some ''opt'', opt_call call)"
    by (auto split: sum.splits)
  from vis_okD[OF assms ok i] show "cache_ok (cache s') \<and> \<not> endswith (snd r) '',,''"
    using r by (simp add: opt_call_ok)
qed

lemma vis_Lookahead:
  assumes "vis_ok (cm_visit h) x"
  shows "vis_ok (cm_visit h) (PositiveLookahead x)" "vis_ok (cm_visit h) (NegativeLookahead x)"
proof -
  show "vis_ok (cm_visit h) (PositiveLookahead x)"
  proof (rule vis_okI)
    fix s r s'
    assume ok: "cache_ok (cache s)" and v: "cm_visit h (PositiveLookahead x) s = Inr (r, s')"
    from v obtain name call hd' tl' where i: "cm_visit h x s = Inr ((name, call), s')"
      and r: "r = (None, ''(self positive_lookahead '' @ hd' @ '' '' @ tl' @ '')'')"
      by (auto split: sum.splits)
    from vis_okD[OF assms ok i] show "cache_ok (cache s') \<and> \<not> endswith (snd r) '',,''"
      using r lookahead_no_dd(1)[of hd' tl'] by simp
  qed
  show "vis_ok (cm_visit h) (NegativeLookahead x)"
  proof (rule vis_okI)
    fix s r s'
    assume ok: "cache_ok (cache s)" and v: "cm_visit h (NegativeLookahead x) s = Inr (r, s')"
    from v obtain name call hd' tl' where i: "cm_visit h x s = Inr ((name, call), s')"
      and r: "r = (None, ''(self negative_lookahead '' @ hd' @ '' '' @ tl' @ '')'')"
      by (auto split: sum.splits)
    from vis_okD[OF assms ok i] show "cache_ok (cache s') \<and> \<not> endswith (snd r) '',,''"
      using r lookahead_no_dd(2)[of hd' tl'] by simp
  qed
qed

lemma vis_Forced:
  assumes "vis_ok (cm_visit h) x"
  shows "vis_ok (cm_visit h) (Forced x)"
proof (cases "\<exists>r. x = Group r")
  case True
  then obtain g where x: "x = Group g" by blast
  from assms x have vr: "vis_ok (cm_visit_Rhs h) g" by (simp add: vis_ok_def)
  show ?thesis unfolding x
  proof (rule vis_okI)
    fix s r s'
    assume ok: "cache_ok (cache s)" and v: "cm_visit h (Forced (Group g)) s = Inr (r, s')"
    from v obtain name val where i: "cm_visit_Rhs h g s = Inr ((name, val), s')"
      and r: "forced_group h g val = Inr r"
      by (auto split: sum.splits)
    from r have "\<not> endswith (snd r) '',,''"
      by (cases r) (auto dest!: forced_group_call paren_no_dd)
    with vis_okD[OF vr ok i] show "cache_ok (cache s') \<and> \<not> endswith (snd r) '',,''" by simp
  qed
next
  case False
  then have eq: "cm_visit h (Forced x) s = (case forced_leaf x of Inl e \<Rightarrow> Inl e | Inr res \<Rightarrow> Inr (res, s))" for s
    by (cases x) auto
  show ?thesis
  proof (rule vis_okI)
    fix s r s'
    assume ok: "cache_ok (cache s)" and v: "cm_visit h (Forced x) s = Inr (r, s')"
    from v eq have r: "forced_leaf x = Inr r" and s': "s' = s" by (auto split: sum.splits)
    from r have "\<not> endswith (snd r) '',,''"
      by (cases r) (auto dest!: forced_leaf_call paren_no_dd)
    with ok s' show "cache_ok (cache s') \<and> \<not> endswith (snd r) '',,''" by simp
  qed
qed

lemma vis_NamedItem:
  assumes "vis_ok (cm_visit h) x"
  shows "vis_ok (cm_visit_NamedItem h) (NamedItem nm x)"
proof (rule vis_okI)
  fix s r s'
  assume ok: "cache_ok (cache s)" and v: "cm_visit_NamedItem h (NamedItem nm x) s = Inr (r, s')"
  from v obtain name call where i: "cm_visit h x s = Inr ((name, call), s')"
    and r: "snd r = call"
    by (auto split: sum.splits)
  from vis_okD[OF assms ok i] show "cache_ok (cache s') \<and> \<not> endswith (snd r) '',,''"
    using r by simp
qed

lemma vis_NameLeaf: "vis_ok (cm_visit h) (NameLeaf x)"
proof (rule vis_okI)
  fix s r s'
  assume ok: "cache_ok (cache s)" and v: "cm_visit h (NameLeaf x) s = Inr (r, s')"
  from v have r: "visit_NameLeaf x = Inr r" and s': "s' = s" by (auto split: sum.splits)
  from r have "\<not> endswith (snd r) '',,''"
    by (cases r) (auto dest!: visit_NameLeaf_call paren_no_dd)
  with ok s' show "cache_ok (cache s') \<and> \<not> endswith (snd r) '',,''" by simp
qed

lemma vis_StringLeaf: "vis_ok (cm_visit h) (StringLeaf x)"
proof (rule vis_okI)
  fix s r s'
  assume ok: "cache_ok (cache s)" and v: "cm_visit h (StringLeaf x) s = Inr (r, s')"
  then have "visit_StringLeaf h x s = Inr ((fst r, snd r), s')" by simp
  from visit_StringLeaf_call[OF this] ok
  show "cache_ok (cache s') \<and> \<not> endswith (snd r) '',,''" by (simp add: paren_no_dd)
qed

lemma vis_all:
  "vis_ok (cm_visit h) it"
proof (induction it
    rule: item.induct[where
      ?P2.0 = "\<lambda>r. vis_ok (cm_visit_Rhs h) r"
      and ?P3.0 = "\<lambda>a. case a of Alt nis act \<Rightarrow> \<forall>ni\<in>set nis. vis_ok (cm_visit_NamedItem h) ni"
      and ?P4.0 = "\<lambda>ni. vis_ok (cm_visit_NamedItem h) ni"])
  case (NameLeaf x)
  show ?case by (rule vis_NameLeaf)
next
  case (StringLeaf x)
  show ?case by (rule vis_StringLeaf)
next
  case (Group x)
  then show ?case by (simp add: vis_ok_def)
next
  case (Opt x)
  then show ?case by (rule vis_Opt)
next
  case (Repeat0 x1 x2)
  show ?case by (rule vis_okI) (metis visit_Repeat0_res entry_no_dd)
next
  case (Repeat1 x1 x2)
  show ?case by (rule vis_okI) (metis visit_Repeat1_res entry_no_dd)
next
  case (Gather x1 x2 x3)
  show ?case by (rule vis_okI) (metis visit_Gather_res entry_no_dd)
next
  case (PositiveLookahead x)
  then show ?case by (rule vis_Lookahead)
next
  case (NegativeLookahead x)
  then show ?case by (rule vis_Lookahead)
next
  case Cut
  show ?case by (rule vis_okI) (auto simp: endswith_comma2)
next
  case (Forced x)
  then show ?case by (rule vis_Forced)
next
  case (Rhs x1 x2)
  then show ?case by (rule vis_Rhs)
next
  case (Alt x1 x2)
  then show ?case by simp
next
  case (NamedItem x1 x2)
  then show ?case by (rule vis_NamedItem)
qed

section \<open>Relational induction over the call maker\<close>

lemma rel_okI: "(\<And>s r s'. f x s = Inr (r, s') \<Longrightarrow> R s s') \<Longrightarrow> rel_ok R f x"
  unfolding rel_ok_def by blast

lemma rel_okD: "rel_ok R f x \<Longrightarrow> f x s = Inr (r, s') \<Longrightarrow> R s s'"
  unfolding rel_ok_def by blast

lemma steps_refl: "steps_ok R \<Longrightarrow> R s s"
  by (simp add: steps_ok_def)
lemma steps_trans: "steps_ok R \<Longrightarrow> R s t \<Longrightarrow> R t u \<Longrightarrow> R s u"
proof -
  assume a: "steps_ok R" and b: "R s t" and c: "R t u"
  from a have "\<forall>s t u. R s t \<longrightarrow> R t u \<longrightarrow> R s u" by (simp add: steps_ok_def)
  with b c show ?thesis by blast
qed
lemma steps_string: "steps_ok R \<Longrightarrow> visit_StringLeaf h v s = Inr (r, s') \<Longrightarrow> R s s'"
proof -
  assume a: "steps_ok R" and b: "visit_StringLeaf h v s = Inr (r, s')"
  from a have "\<forall>h v s r s'. visit_StringLeaf h v s = Inr (r, s') \<longrightarrow> R s s'" by (simp add: steps_ok_def)
  with b show ?thesis by blast
qed
lemma steps_loop: "steps_ok R \<Longrightarrow> name_loop n b s = (nm, s1) \<Longrightarrow> R s s1"
proof -
  assume a: "steps_ok R" and b: "name_loop n b s = (nm, s1)"
  from a have "R s (snd (name_loop n b s))" by (simp add: steps_ok_def)
  with b show ?thesis by simp
qed
lemma steps_node: "steps_ok R \<Longrightarrow> name_node g s = (nm, s1) \<Longrightarrow> R s s1"
proof -
  assume a: "steps_ok R" and b: "name_node g s = (nm, s1)"
  from a have "R s (snd (name_node g s))" by (simp add: steps_ok_def)
  with b show ?thesis by simp
qed
lemma steps_gather: "steps_ok R \<Longrightarrow> name_gather a b s = (nm, s1) \<Longrightarrow> R s s1"
proof -
  assume a: "steps_ok R" and b: "name_gather a b s = (nm, s1)"
  from a have "R s (snd (name_gather a b s))" by (simp add: steps_ok_def)
  with b show ?thesis by simp
qed
lemma steps_upd:
  "steps_ok R \<Longrightarrow> R s t \<Longrightarrow> cache s k = None \<Longrightarrow> R s (t\<lparr>cache := (cache t)(k \<mapsto> r)\<rparr>)"
proof -
  assume a: "steps_ok R" and b: "R s t" and c: "cache s k = None"
  from a have "\<forall>s t k r. R s t \<longrightarrow> cache s k = None \<longrightarrow> R s (t\<lparr>cache := (cache t)(k \<mapsto> r)\<rparr>)"
    by (simp add: steps_ok_def)
  with b c show ?thesis by blast
qed

lemma rel_Repeat0:
  assumes ok: "steps_ok R" and v: "cm_visit h (Repeat0 i node) s = Inr (r, s')"
  shows "R s s'"
proof (cases "cache s (KRepeat0 i)")
  case None
  obtain name s1 where n: "name_loop node False s = (name, s1)" by (cases "name_loop node False s")
  from v None n have s': "s' = s1\<lparr>cache := (cache s1)(KRepeat0 i \<mapsto> r)\<rparr>" by (auto simp: Let_def)
  from steps_upd[OF ok steps_loop[OF ok n] None] s' show ?thesis by simp
next
  case (Some a)
  with v have "s' = s" by auto
  with steps_refl[OF ok] show ?thesis by simp
qed

lemma rel_Repeat1:
  assumes ok: "steps_ok R" and v: "cm_visit h (Repeat1 i node) s = Inr (r, s')"
  shows "R s s'"
proof (cases "cache s (KRepeat1 i)")
  case None
  obtain name s1 where n: "name_loop node True s = (name, s1)" by (cases "name_loop node True s")
  from v None n have s': "s' = s1\<lparr>cache := (cache s1)(KRepeat1 i \<mapsto> r)\<rparr>" by (auto simp: Let_def)
  from steps_upd[OF ok steps_loop[OF ok n] None] s' show ?thesis by simp
next
  case (Some a)
  with v have "s' = s" by auto
  with steps_refl[OF ok] show ?thesis by simp
qed

lemma rel_Gather:
  assumes ok: "steps_ok R" and v: "cm_visit h (Gather i sep node) s = Inr (r, s')"
  shows "R s s'"
proof (cases "cache s (KGather i)")
  case None
  obtain name s1 where n: "name_gather sep node s = (name, s1)" by (cases "name_gather sep node s")
  from v None n have s': "s' = s1\<lparr>cache := (cache s1)(KGather i \<mapsto> r)\<rparr>" by (auto simp: Let_def)
  from steps_upd[OF ok steps_gather[OF ok n] None] s' show ?thesis by simp
next
  case (Some a)
  with v have "s' = s" by auto
  with steps_refl[OF ok] show ?thesis by simp
qed

lemma rel_Rhs:
  assumes ok: "steps_ok R"
    and ih: "\<And>a. a \<in> set alts \<Longrightarrow> (case a of Alt nis act \<Rightarrow> \<forall>ni\<in>set nis. rel_ok R (cm_visit_NamedItem h) ni)"
  shows "rel_ok R (cm_visit_Rhs h) (Rhs i alts)"
proof (rule rel_okI)
  fix s r s'
  assume v: "cm_visit_Rhs h (Rhs i alts) s = Inr (r, s')"
  show "R s s'"
  proof (cases "cache s (KRhs i)")
    case (Some a)
    with v have "s' = s" by auto
    with steps_refl[OF ok] show ?thesis by simp
  next
    case None
    show ?thesis
    proof (cases "\<exists>ni act. alts = [Alt [ni] act]")
      case True
      then obtain ni act where alts: "alts = [Alt [ni] act]" by blast
      with ih[of "Alt [ni] act"] have vni: "rel_ok R (cm_visit_NamedItem h) ni" by simp
      from v None alts obtain s1 where s1: "cm_visit_NamedItem h ni s = Inr (r, s1)"
        and s': "s' = s1\<lparr>cache := (cache s1)(KRhs i \<mapsto> r)\<rparr>"
        by (auto split: sum.splits)
      from steps_upd[OF ok rel_okD[OF vni s1] None] s' show ?thesis by simp
    next
      case False
      obtain name s1 where n: "name_node (Rhs i alts) s = (name, s1)" by (cases "name_node (Rhs i alts) s")
      from v n cm_visit_Rhs_synth[OF None False, of h]
      have s': "s' = s1\<lparr>cache := (cache s1)(KRhs i \<mapsto> r)\<rparr>" by (auto simp: Let_def)
      from steps_upd[OF ok steps_node[OF ok n] None] s' show ?thesis by simp
    qed
  qed
qed

lemma rel_Forced:
  assumes ok: "steps_ok R" and ih: "rel_ok R (cm_visit h) x"
  shows "rel_ok R (cm_visit h) (Forced x)"
proof (cases "\<exists>r. x = Group r")
  case True
  then obtain g where x: "x = Group g" by blast
  from ih x have vr: "rel_ok R (cm_visit_Rhs h) g" by (simp add: rel_ok_def)
  show ?thesis unfolding x
  proof (rule rel_okI)
    fix s r s'
    assume v: "cm_visit h (Forced (Group g)) s = Inr (r, s')"
    then obtain name val where i: "cm_visit_Rhs h g s = Inr ((name, val), s')"
      by (auto split: sum.splits)
    from rel_okD[OF vr i] show "R s s'" .
  qed
next
  case False
  then have eq: "cm_visit h (Forced x) s = (case forced_leaf x of Inl e \<Rightarrow> Inl e | Inr res \<Rightarrow> Inr (res, s))" for s
    by (cases x) auto
  show ?thesis
  proof (rule rel_okI)
    fix s r s'
    assume v: "cm_visit h (Forced x) s = Inr (r, s')"
    with eq have "s' = s" by (auto split: sum.splits)
    with steps_refl[OF ok] show "R s s'" by simp
  qed
qed

lemma rel_all:
  assumes ok: "steps_ok R"
  shows "rel_ok R (cm_visit h) it"
proof (induction it
    rule: item.induct[where
      ?P2.0 = "\<lambda>r. rel_ok R (cm_visit_Rhs h) r"
      and ?P3.0 = "\<lambda>a. case a of Alt nis act \<Rightarrow> \<forall>ni\<in>set nis. rel_ok R (cm_visit_NamedItem h) ni"
      and ?P4.0 = "\<lambda>ni. rel_ok R (cm_visit_NamedItem h) ni"])
  case (NameLeaf x)
  show ?case
  proof (rule rel_okI)
    fix s r s' assume "cm_visit h (NameLeaf x) s = Inr (r, s')"
    then have "s' = s" by (auto split: sum.splits)
    with steps_refl[OF ok] show "R s s'" by simp
  qed
next
  case (StringLeaf x)
  show ?case
  proof (rule rel_okI)
    fix s r s' assume "cm_visit h (StringLeaf x) s = Inr (r, s')"
    then have "visit_StringLeaf h x s = Inr (r, s')" by simp
    from steps_string[OF ok this] show "R s s'" .
  qed
next
  case (Group x)
  then show ?case by (simp add: rel_ok_def)
next
  case (Opt x)
  show ?case
  proof (rule rel_okI)
    fix s r s' assume "cm_visit h (Opt x) s = Inr (r, s')"
    then obtain r0 where "cm_visit h x s = Inr (r0, s')" by (auto split: sum.splits)
    from rel_okD[OF Opt this] show "R s s'" .
  qed
next
  case (Repeat0 x1 x2)
  show ?case by (rule rel_okI) (rule rel_Repeat0[OF ok])
next
  case (Repeat1 x1 x2)
  show ?case by (rule rel_okI) (rule rel_Repeat1[OF ok])
next
  case (Gather x1 x2 x3)
  show ?case by (rule rel_okI) (rule rel_Gather[OF ok])
next
  case (PositiveLookahead x)
  show ?case
  proof (rule rel_okI)
    fix s r s' assume "cm_visit h (PositiveLookahead x) s = Inr (r, s')"
    then obtain r0 where "cm_visit h x s = Inr (r0, s')" by (auto split: sum.splits)
    from rel_okD[OF PositiveLookahead this] show "R s s'" .
  qed
next
  case (NegativeLookahead x)
  show ?case
  proof (rule rel_okI)
    fix s r s' assume "cm_visit h (NegativeLookahead x) s = Inr (r, s')"
    then obtain r0 where "cm_visit h x s = Inr (r0, s')" by (auto split: sum.splits)
    from rel_okD[OF NegativeLookahead this] show "R s s'" .
  qed
next
  case Cut
  show ?case
  proof (rule rel_okI)
    fix s r s' assume "cm_visit h Cut s = Inr (r, s')"
    then have "s' = s" by auto
    with steps_refl[OF ok] show "R s s'" by simp
  qed
next
  case (Forced x)
  then show ?case by (rule rel_Forced[OF ok])
next
  case (Rhs x1 x2)
  then show ?case by (rule rel_Rhs[OF ok])
next
  case (Alt x1 x2)
  then show ?case by simp
next
  case (NamedItem x1 x2)
  show ?case
  proof (rule rel_okI)
    fix s r s' assume "cm_visit_NamedItem h (NamedItem x1 x2) s = Inr (r, s')"
    then obtain r0 where "cm_visit h x2 s = Inr (r0, s')" by (auto split: sum.splits)
    from rel_okD[OF NamedItem this] show "R s s'" .
  qed
qed

lemma cm_visit_rel: "steps_ok R \<Longrightarrow> cm_visit h it s = Inr (r, s') \<Longrightarrow> R s s'"
  by (rule rel_okD[OF rel_all])



lemma visit_StringLeaf_frame:
  assumes "visit_StringLeaf h v s = Inr (r, s')"
  shows "out s' = out s" "level s' = level s" "local_variable_stack s' = local_variable_stack s"
    "cleanup_statements s' = cleanup_statements s" "cache s' = cache s" "todo s' = todo s"
    "counter s' = counter s"
  using assms unfolding visit_StringLeaf_def
  by (auto simp: Let_def split: option.splits sum.splits if_splits)

lemma name_loop_frame:
  "out (snd (name_loop n b s)) = out s" "level (snd (name_loop n b s)) = level s"
  "local_variable_stack (snd (name_loop n b s)) = local_variable_stack s"
  "cleanup_statements (snd (name_loop n b s)) = cleanup_statements s"
  "cache (snd (name_loop n b s)) = cache s"
  by (simp_all add: name_loop_def Let_def)

lemma name_node_frame:
  "out (snd (name_node g s)) = out s" "level (snd (name_node g s)) = level s"
  "local_variable_stack (snd (name_node g s)) = local_variable_stack s"
  "cleanup_statements (snd (name_node g s)) = cleanup_statements s"
  "cache (snd (name_node g s)) = cache s"
  by (simp_all add: name_node_def Let_def)

lemma name_gather_frame:
  "out (snd (name_gather a b s)) = out s" "level (snd (name_gather a b s)) = level s"
  "local_variable_stack (snd (name_gather a b s)) = local_variable_stack s"
  "cleanup_statements (snd (name_gather a b s)) = cleanup_statements s"
  "cache (snd (name_gather a b s)) = cache s"
  by (simp_all add: name_gather_def Let_def)

lemma steps_same_text: "steps_ok same_text"
  unfolding steps_ok_def
proof (intro conjI allI impI)
  show "same_text s s" for s :: gen_state by (simp add: same_text_def)
  show "same_text s t \<Longrightarrow> same_text t u \<Longrightarrow> same_text s u" for s t u by (simp add: same_text_def)
  show "visit_StringLeaf h v s = Inr (r, s') \<Longrightarrow> same_text s s'" for h v s r s'
    by (simp add: same_text_def visit_StringLeaf_frame)
  show "same_text s (snd (name_loop n b s))" for n b s by (simp add: same_text_def name_loop_frame)
  show "same_text s (snd (name_node g s))" for g s by (simp add: same_text_def name_node_frame)
  show "same_text s (snd (name_gather a b s))" for a b s by (simp add: same_text_def name_gather_frame)
  show "same_text s t \<Longrightarrow> cache s k = None \<Longrightarrow> same_text s (t\<lparr>cache := (cache t)(k \<mapsto> r)\<rparr>)" for s t k r
    by (simp add: same_text_def)
qed

lemma steps_cache_le: "steps_ok cache_le"
  unfolding steps_ok_def
proof (intro conjI allI impI)
  show "cache_le s s" for s :: gen_state by (simp add: cache_le_def)
  show "cache_le s t \<Longrightarrow> cache_le t u \<Longrightarrow> cache_le s u" for s t u by (simp add: cache_le_def)
  show "visit_StringLeaf h v s = Inr (r, s') \<Longrightarrow> cache_le s s'" for h v s r s'
    by (simp add: cache_le_def visit_StringLeaf_frame)
  show "cache_le s (snd (name_loop n b s))" for n b s by (simp add: cache_le_def name_loop_frame)
  show "cache_le s (snd (name_node g s))" for g s by (simp add: cache_le_def name_node_frame)
  show "cache_le s (snd (name_gather a b s))" for a b s by (simp add: cache_le_def name_gather_frame)
  show "cache_le s t \<Longrightarrow> cache s k = None \<Longrightarrow> cache_le s (t\<lparr>cache := (cache t)(k \<mapsto> r)\<rparr>)" for s t k r
    by (auto simp: cache_le_def)
qed

lemma cm_visit_same_text: "cm_visit h it s = Inr (r, s') \<Longrightarrow> same_text s s'"
  by (rule cm_visit_rel[OF steps_same_text])

lemma cm_visit_cache_le: "cm_visit h it s = Inr (r, s') \<Longrightarrow> cache_le s s'"
  by (rule cm_visit_rel[OF steps_cache_le])

section \<open>What the emitter keeps\<close>

lemma prim_fields [simp]:
  "cache (gen_print l s) = cache s" "cleanup_statements (gen_print l s) = cleanup_statements s"
  "level (gen_print l s) = level s" "out (gen_print l s) = out s @ [(level s, l)]"
  "local_variable_stack (gen_print l s) = local_variable_stack s"
  "todo (gen_print l s) = todo s" "counter (gen_print l s) = counter s"
  "cache (print_empty s) = cache s" "cleanup_statements (print_empty s) = cleanup_statements s"
  "level (print_empty s) = level s" "out (print_empty s) = out s @ [(0, [])]"
  "local_variable_stack (print_empty s) = local_variable_stack s"
  "todo (print_empty s) = todo s" "counter (print_empty s) = counter s"
  "cache (indent s) = cache s" "cleanup_statements (indent s) = cleanup_statements s"
  "level (indent s) = level s + 1" "out (indent s) = out s"
  "local_variable_stack (indent s) = local_variable_stack s"
  "todo (indent s) = todo s" "counter (indent s) = counter s"
  "cache (dedent s) = cache s" "cleanup_statements (dedent s) = cleanup_statements s"
  "level (dedent s) = level s - 1" "out (dedent s) = out s"
  "local_variable_stack (dedent s) = local_variable_stack s"
  "todo (dedent s) = todo s" "counter (dedent s) = counter s"
  "cache (push_locals s) = cache s" "cleanup_statements (push_locals s) = cleanup_statements s"
  "level (push_locals s) = level s" "out (push_locals s) = out s"
  "local_variable_stack (push_locals s) = [] # local_variable_stack s"
  "todo (push_locals s) = todo s" "counter (push_locals s) = counter s"
  "cache (pop_locals s) = cache s" "cleanup_statements (pop_locals s) = cleanup_statements s"
  "level (pop_locals s) = level s" "out (pop_locals s) = out s"
  "local_variable_stack (pop_locals s) = tl (local_variable_stack s)"
  "todo (pop_locals s) = todo s" "counter (pop_locals s) = counter s"
  by (simp_all add: gen_print_def print_empty_def indent_def dedent_def push_locals_def pop_locals_def)

lemma grows_refl [simp]: "grows s s"
  by (simp add: grows_def cache_le_def)

lemma grows_trans: "grows s t \<Longrightarrow> grows t u \<Longrightarrow> grows s u"
  by (auto simp: grows_def cache_le_def)

lemma grows_same: "cache t = cache s \<Longrightarrow> out t = out s \<Longrightarrow> cleanup_statements t = cleanup_statements s \<Longrightarrow> grows s t"
  by (simp add: grows_def cache_le_def)

lemma grows_step:
  "grows s t \<Longrightarrow> cache u = cache t \<Longrightarrow> out u = out t @ ls \<Longrightarrow>
   cleanup_statements u = cleanup_statements t \<Longrightarrow> grows s u"
  by (auto simp: grows_def cache_le_def)

lemma grows_print: "grows s t \<Longrightarrow> grows s (gen_print l t)"
  by (rule grows_step[where ls="[(level t, l)]"]) simp_all

lemma grows_indent: "grows s t \<Longrightarrow> grows s (indent t)"
  by (rule grows_step[where ls="[]"]) simp_all

lemma grows_dedent: "grows s t \<Longrightarrow> grows s (dedent t)"
  by (rule grows_step[where ls="[]"]) simp_all

lemma grows_push: "grows s t \<Longrightarrow> grows s (push_locals t)"
  by (rule grows_step[where ls="[]"]) simp_all

lemma grows_pop: "grows s t \<Longrightarrow> grows s (pop_locals t)"
  by (rule grows_step[where ls="[]"]) simp_all

lemma grows_print_empty: "grows s t \<Longrightarrow> grows s (print_empty t)"
  by (rule grows_step[where ls="[(0, [])]"]) simp_all

lemma fold_print_fields:
  "cache (fold gen_print xs s) = cache s"
  "cleanup_statements (fold gen_print xs s) = cleanup_statements s"
  "level (fold gen_print xs s) = level s"
  "out (fold gen_print xs s) = out s @ map (\<lambda>l. (level s, l)) xs"
  "local_variable_stack (fold gen_print xs s) = local_variable_stack s"
  "todo (fold gen_print xs s) = todo s"
  by (induction xs arbitrary: s) simp_all

lemma add_return_fields:
  "cache (add_return v s) = cache s"
  "cleanup_statements (add_return v s) = cleanup_statements s"
  "level (add_return v s) = level s"
  "out (add_return v s) = out s @ map (\<lambda>l. (level s, l)) (cleanup_statements s)
       @ [(level s, ''(return '' @ v @ '')'')]"
  "local_variable_stack (add_return v s) = local_variable_stack s"
  "todo (add_return v s) = todo s"
  by (simp_all add: add_return_def fold_print_fields)

lemma grows_add_return: "grows s t \<Longrightarrow> grows s (add_return v t)"
  by (rule grows_step[where ls="map (\<lambda>l. (level t, l)) (cleanup_statements t)
       @ [(level t, ''(return '' @ v @ '')'')]"]) (simp_all add: add_return_fields)

lemma cm_visit_grows: "cm_visit h it s = Inr (r, s') \<Longrightarrow> grows s s'"
  using cm_visit_same_text[of h it s r s'] cm_visit_cache_le[of h it s r s']
  by (simp add: grows_def same_text_def)

lemma dedupe_fields:
  assumes "dedupe n s = Inr (n', s')"
  shows "cache s' = cache s" "out s' = out s" "cleanup_statements s' = cleanup_statements s"
    "level s' = level s" "todo s' = todo s"
  using assms by (auto simp: dedupe_def Let_def split: list.splits)

lemma dedupe_grows: "dedupe n s = Inr (n', s') \<Longrightarrow> grows s s'"
  by (rule grows_same) (simp_all add: dedupe_fields)

lemma print_item_grows:
  assumes "print_item name call s = Inr s'"
  shows "grows s s' \<and> level s' = level s"
proof (cases "truthy name")
  case False
  with assms have "s' = gen_print (''('' @ call @ '')'') s"
    by (simp add: print_item_def)
  then show ?thesis by (simp add: grows_print)
next
  case True
  show ?thesis
  proof (cases "the name = ''cut''")
    case c: True
    with assms True have "s' = gen_print (''(var '' @ the name @ '' '' @ call @ '')'') s"
      by (simp add: print_item_def Let_def)
    then show ?thesis by (simp add: grows_print)
  next
    case c: False
    with assms True have "(case dedupe (the name) s of
                    Inl e \<Rightarrow> Inl e
                  | Inr (n', s2) \<Rightarrow>
                      Inr (gen_print (''(var '' @ n' @ '' '' @ call @ '')'') s2)) = Inr s'"
      by (simp add: print_item_def Let_def)
    then obtain n' s2 where d: "dedupe (the name) s = Inr (n', s2)"
      and s': "s' = gen_print (''(var '' @ n' @ '' '' @ call @ '')'') s2"
      by (cases "dedupe (the name) s") auto
    from grows_print[OF dedupe_grows[OF d]] dedupe_fields(4)[OF d] s' show ?thesis by simp
  qed
qed

lemma gen_visit_NamedItem_grows:
  assumes "gen_visit_NamedItem h ni used unreachable s = Inr s'"
  shows "grows s s' \<and> level s' = level s"
proof -
  obtain nm it where ni: "ni = NamedItem nm it" by (cases ni)
  from assms ni obtain name0 call s1 where v: "cm_visit h it s = Inr ((name0, call), s1)"
    and p: "print_item (item_name nm name0 used unreachable) call s1 = Inr s'"
    by (auto simp: gen_visit_NamedItem_def split: sum.splits)
  from cm_visit_same_text[OF v] have l1: "level s1 = level s" by (simp add: same_text_def)
  from print_item_grows[OF p] grows_trans[OF cm_visit_grows[OF v]] l1 show ?thesis by simp
qed

lemma visit_items_grows:
  "visit_items h gather used unreachable items s = Inr s' \<Longrightarrow> grows s s' \<and> level s' = level s"
proof (induction items arbitrary: s)
  case Nil
  then show ?case by simp
next
  case (Cons ni rest)
  define s1 where "s1 = (if gather then gen_print ''(not (nil? '' s else s)"
  have g1: "grows s s1" and l1: "level s1 = level s" by (simp_all add: s1_def grows_print)
  from Cons.prems obtain s2 where v: "gen_visit_NamedItem h ni used unreachable s1 = Inr s2"
    and r: "visit_items h gather used unreachable rest
               (if gather then gen_print ''))'' s2 else s2) = Inr s'"
    by (auto simp: Let_def s1_def split: sum.splits)
  from gen_visit_NamedItem_grows[OF v] have g2: "grows s1 s2" and l2: "level s2 = level s1" by simp_all
  define s3 where "s3 = (if gather then gen_print ''))'' s2 else s2)"
  have g3: "grows s2 s3" and l3: "level s3 = level s2" by (simp_all add: s3_def grows_print)
  from Cons.IH[of s3] r have g4: "grows s3 s'" and l4: "level s' = level s3" by (simp_all add: s3_def)
  from grows_trans[OF grows_trans[OF grows_trans[OF g1 g2] g3] g4] l1 l2 l3 l4 show ?case by simp
qed

lemma print_action_grows:
  assumes "print_action action locations unreachable gather loop has_invalid s = Inr s'"
  shows "grows s s' \<and> level s' = level s"
proof -
  from assms obtain act where
    s': "s' = (let s1 = (if locations
                     then gen_print ''(var [end_lineno end_col_offset] (tok :end))''
                            (gen_print ''(var tok (:get_last_non_whitespace_token (self :_tokenizer)))'' s)
                     else s)
           in if loop
              then gen_print ''(set mark self._mark())''
                          (gen_print (''(array/push children '' @ act @ '')'') s1)
              else add_return act s1)"
    by (auto simp: print_action_def Let_def split: sum.splits if_splits)
  show ?thesis unfolding s' Let_def
    by (simp add: grows_print grows_add_return add_return_fields)
qed


lemma grows_level_trans:
  "grows s t \<and> level t = level s \<Longrightarrow> grows t u \<and> level u = level t \<Longrightarrow> grows s u \<and> level u = level s"
  using grows_trans by auto

lemma gen_visit_Alt_grows:
  assumes "gen_visit_Alt h node loop gather s = Inr s'"
  shows "grows s s' \<and> level s' = level s"
proof -
  obtain items action0 where n: "node = Alt items action0" by (cases node)
  obtain action locations unreachable where
    aa: "alt_action h node gather = (action, locations, unreachable)"
    by (cases "alt_action h node gather") auto
  define s1 where "s1 = push_locals s"
  define s2 where "s2 = (if has_cut items then gen_print ''(set cut False)'' s1 else s1)"
  define s3 where "s3 = (if loop then gen_print ''(while (and '' s2 else gen_print ''(when (and '' s2)"
  define s5 where "s5 = (if invalid_visit_Alt node then gen_print ''(self :call_invalid_rules)'' (indent s3)
                         else indent s3)"
  have g5: "grows s s5" and l5: "level s5 = level s + 1"
    by (simp_all add: s5_def s3_def s2_def s1_def grows_print grows_indent grows_push)
  have eq: "gen_visit_Alt h node loop gather s =
      (case visit_items h gather None unreachable items s5 of
         Inl e \<Rightarrow> Inl e
       | Inr s6 \<Rightarrow>
           (case print_action action locations unreachable gather loop (invalid_visit_Alt node)
                   (indent (gen_print '')'' (dedent s6))) of
              Inl e \<Rightarrow> Inl e
            | Inr s8 \<Rightarrow> Inr (pop_locals (if has_cut items
                 then gen_print ''(when cut (return nil))'' (gen_print ''(:_reset self mark)'' (dedent s8))
                 else gen_print ''(:_reset self mark)'' (dedent s8)))))"
    using aa unfolding gen_visit_Alt_def s5_def s3_def s2_def s1_def n
    by (simp add: Let_def cong: sum.case_cong)
  from assms[unfolded eq] obtain s6 where
    v: "visit_items h gather None unreachable items s5 = Inr s6"
    and p0: "(case print_action action locations unreachable gather loop (invalid_visit_Alt node)
                   (indent (gen_print '')'' (dedent s6))) of
              Inl e \<Rightarrow> Inl e
            | Inr s8 \<Rightarrow> Inr (pop_locals (if has_cut items
                 then gen_print ''(when cut (return nil))'' (gen_print ''(:_reset self mark)'' (dedent s8))
                 else gen_print ''(:_reset self mark)'' (dedent s8)))) = Inr s'"
    by (cases "visit_items h gather None unreachable items s5") auto
  from p0 obtain s8 where
    p: "print_action action locations unreachable gather loop (invalid_visit_Alt node)
              (indent (gen_print '')'' (dedent s6))) = Inr s8"
    and s': "s' = pop_locals (if has_cut items
                 then gen_print ''(when cut (return nil))'' (gen_print ''(:_reset self mark)'' (dedent s8))
                 else gen_print ''(:_reset self mark)'' (dedent s8))"
    by (cases "print_action action locations unreachable gather loop (invalid_visit_Alt node)
              (indent (gen_print '')'' (dedent s6)))") auto
  from visit_items_grows[OF v] have g6: "grows s5 s6" and l6: "level s6 = level s5" by simp_all
  define s7 where "s7 = indent (gen_print '')'' (dedent s6))"
  have g7: "grows s6 s7" and l7: "level s7 = level s6"
    using l6 l5 by (simp_all add: s7_def grows_print grows_indent grows_dedent)
  from print_action_grows[OF p] have g8: "grows s7 s8" and l8: "level s8 = level s7"
    by (simp_all add: s7_def)
  have g9: "grows s8 s'" and l9: "level s' = level s8 - 1"
    by (simp_all add: s' grows_print grows_dedent grows_pop)
  from grows_trans[OF grows_trans[OF grows_trans[OF grows_trans[OF g5 g6] g7] g8] g9]
  have "grows s s'" .
  moreover from l5 l6 l7 l8 l9 have "level s' = level s" by simp
  ultimately show ?thesis by simp
qed

lemma visit_alts_grows:
  "visit_alts h loop gather alts s = Inr s' \<Longrightarrow> grows s s' \<and> level s' = level s"
proof (induction alts arbitrary: s)
  case Nil
  then show ?case by simp
next
  case (Cons a rest)
  from Cons.prems obtain s1 where v: "gen_visit_Alt h a loop gather s = Inr s1"
    and r: "visit_alts h loop gather rest s1 = Inr s'"
    by (auto split: sum.splits)
  from grows_level_trans[OF gen_visit_Alt_grows[OF v] Cons.IH[OF r]] show ?case .
qed

lemma gen_visit_Rhs_grows:
  assumes "gen_visit_Rhs h node loop gather s = Inr s'"
  shows "grows s s' \<and> level s' = level s"
proof -
  obtain i alts where n: "node = Rhs i alts" by (cases node)
  from assms n have "visit_alts h loop gather alts s = Inr s'"
    by (auto simp: gen_visit_Rhs_def split: if_splits)
  then show ?thesis by (rule visit_alts_grows)
qed


lemma gen_visit_Rule_grows:
  assumes "gen_visit_Rule h node s = Inr s'"
  shows "grows s s' \<and> level s' = level s
         \<and> (\<exists>rest. out s' = out s @ (level s, definition_line node) # rest)"
proof -
  define s3 where "s3 = (let s2 = gen_print (''# '' @ rule_name node @ '': '' @ rhs_str h (flatten node))
                                   (indent (gen_print (definition_line node) s))
                         in if nullable node then gen_print ''# nullable=True'' s2 else s2)"
  define s4 where "s4 = (if without_invalid node
                then (let t1 = gen_print ''(def _prev_call_invalid (self :call_invalid_rules))'' s3;
                          t2 = gen_print ''(set self :call_invalid_rules False)'' t1
                      in t2\<lparr>cleanup_statements := cleanup_statements t2 @ [restore_stmt]\<rparr>)
                else s3)"
  define s7 where "s7 = (let s5 = gen_print ''(var mark (:_mark self))'' s4;
          s6 = (if alts_uses_locations (case rule_rhs node of Rhs i alts \<Rightarrow> alts)
                then gen_print ''(var [start_lineno start_col_offset] tok.start)''
                       (gen_print ''(var tok (:peek (self :_tokenizer)))'' s5)
                else s5)
          in if is_loop node then gen_print ''(def children @[])'' s6 else s6)"
  have f3: "cache s3 = cache s" "level s3 = level s + 1"
    "cleanup_statements s3 = cleanup_statements s"
    "\<exists>ls. out s3 = out s @ (level s, definition_line node) # ls"
    by (simp_all add: s3_def Let_def)
  have f4: "cache s4 = cache s" "level s4 = level s + 1"
    "cleanup_statements s4 = cleanup_statements s @ (if without_invalid node then [restore_stmt] else [])"
    "\<exists>ls. out s4 = out s @ (level s, definition_line node) # ls"
    using f3 by (auto simp: s4_def Let_def)
  have f7: "cache s7 = cache s" "level s7 = level s + 1"
    "cleanup_statements s7 = cleanup_statements s @ (if without_invalid node then [restore_stmt] else [])"
    "\<exists>ls. out s7 = out s @ (level s, definition_line node) # ls"
    using f4 by (auto simp: s7_def Let_def)
  have eq: "gen_visit_Rule h node s =
     (case gen_visit_Rhs h (flatten node) (is_loop node) (is_gather node) s7 of
           Inl e \<Rightarrow> Inl e
         | Inr s8 \<Rightarrow>
             (let s9 = (if is_loop node then add_return ''children'' s8 else add_return ''None'' s8);
                  s10 = gen_print '')'' (dedent s9)
              in Inr (if without_invalid node
                      then s10\<lparr>cleanup_statements := butlast (cleanup_statements s10)\<rparr>
                      else s10)))"
    unfolding gen_visit_Rule_def s7_def s4_def s3_def
    by (simp add: Let_def cong: sum.case_cong if_cong)
  from assms[unfolded eq] obtain s8 where
    v: "gen_visit_Rhs h (flatten node) (is_loop node) (is_gather node) s7 = Inr s8"
    and s': "s' = (let s9 = (if is_loop node then add_return ''children'' s8 else add_return ''None'' s8);
                  s10 = gen_print '')'' (dedent s9)
              in (if without_invalid node
                      then s10\<lparr>cleanup_statements := butlast (cleanup_statements s10)\<rparr>
                      else s10))"
    by (cases "gen_visit_Rhs h (flatten node) (is_loop node) (is_gather node) s7")
       (auto simp: Let_def)
  from gen_visit_Rhs_grows[OF v] have g8: "grows s7 s8" and l8: "level s8 = level s7" by simp_all
  from g8 obtain ls8 where o8: "out s8 = out s7 @ ls8" and c8: "cleanup_statements s8 = cleanup_statements s7"
    and cl8: "cache_le s7 s8"
    by (auto simp: grows_def)
  from f7(4) obtain ls7 where o7: "out s7 = out s @ (level s, definition_line node) # ls7" by blast
  have c': "cache s' = cache s8" by (simp add: s' Let_def add_return_fields)
  have l': "level s' = level s8 - 1" by (simp add: s' Let_def add_return_fields)
  have cu': "cleanup_statements s' = cleanup_statements s"
    using c8 f7(3) by (simp add: s' Let_def add_return_fields)
  have o': "\<exists>ls. out s' = out s8 @ ls" by (simp add: s' Let_def add_return_fields)
  then obtain ls9 where o9: "out s' = out s8 @ ls9" by blast
  have out: "out s' = out s @ (level s, definition_line node) # (ls7 @ ls8 @ ls9)"
    by (simp add: o9 o8 o7)
  have cl: "cache_le s s'" using cl8 c' f7(1) by (simp add: cache_le_def)
  have "grows s s'" unfolding grows_def using cl cu' out by blast
  moreover have "level s' = level s" using l' l8 f7(2) by simp
  ultimately show ?thesis using out by blast
qed

lemma emit_rules_grows:
  "emit_rules h rs s = Inr s' \<Longrightarrow> grows s s' \<and> level s' = level s"
proof (induction rs arbitrary: s)
  case Nil
  then show ?case by simp
next
  case (Cons p rest)
  obtain rulename r where p: "p = (rulename, r)" by (cases p)
  define s2 where "s2 = indent (print_empty (s\<lparr>todo := filter (\<lambda>p. fst p \<noteq> rulename) (todo s)\<rparr>))"
  have g2: "grows s s2" and l2: "level s2 = level s + 1"
    by (simp_all add: s2_def grows_def cache_le_def)
  from Cons.prems p obtain s3 where v: "gen_visit_Rule h r s2 = Inr s3"
    and r: "emit_rules h rest (dedent s3) = Inr s'"
    by (auto simp: Let_def s2_def split: if_splits sum.splits)
  from gen_visit_Rule_grows[OF v] have g3: "grows s2 s3" and l3: "level s3 = level s2" by simp_all
  from Cons.IH[OF r] have g4: "grows (dedent s3) s'" and l4: "level s' = level (dedent s3)" by simp_all
  from grows_trans[OF grows_dedent[OF grows_trans[OF g2 g3]] g4] have "grows s s'" .
  moreover from l4 l3 l2 have "level s' = level s" by simp
  ultimately show ?case by simp
qed

section \<open>The cache across the generator's steps\<close>

lemma later_cache_le: "later h s t \<Longrightarrow> cache_le s t"
proof (induction rule: later.induct)
  case (later_now s)
  show ?case by (simp add: cache_le_def)
next
  case (later_visit s t it r u)
  from cm_visit_cache_le[OF later_visit.hyps(2)] later_visit.IH show ?case
    by (simp add: cache_le_def)
next
  case (later_alt s t a loop gather u)
  from gen_visit_Alt_grows[OF later_alt.hyps(2)] later_alt.IH show ?case
    by (simp add: cache_le_def grows_def)
next
  case (later_rule s t node u)
  from gen_visit_Rule_grows[OF later_rule.hyps(2)] later_rule.IH show ?case
    by (simp add: cache_le_def grows_def)
next
  case (later_emit s t rs u)
  from emit_rules_grows[OF later_emit.hyps(2)] later_emit.IH show ?case
    by (simp add: cache_le_def grows_def)
next
  case (later_other s t u)
  then show ?case by (simp add: cache_le_def)
qed

lemma first_visit_cached:
  assumes "cm_visit h it s = Inr (r, s1)" and "cache_key it = Some k"
  shows "cache s1 k = Some r"
proof (cases it)
  case (Group g)
  obtain i alts where g: "g = Rhs i alts" by (cases g)
  have "cache s1 (KRhs i) = Some r"
  proof (cases "cache s (KRhs i)")
    case (Some a)
    with assms(1) Group g show ?thesis by auto
  next
    case None
    show ?thesis
    proof (cases "\<exists>ni act. alts = [Alt [ni] act]")
      case True
      with assms(1) Group g None show ?thesis by (auto split: sum.splits)
    next
      case False
      from assms(1) Group g cm_visit_Rhs_synth[OF None False, of h] show ?thesis
        by (auto simp: Let_def split: prod.splits)
    qed
  qed
  with Group g assms(2) show ?thesis by simp
next
  case (Repeat0 i x)
  with assms(1) have "cache s1 (KRepeat0 i) = Some r"
    by (auto simp: Let_def split: option.splits prod.splits)
  with Repeat0 assms(2) show ?thesis by simp
next
  case (Repeat1 i x)
  with assms(1) have "cache s1 (KRepeat1 i) = Some r"
    by (auto simp: Let_def split: option.splits prod.splits)
  with Repeat1 assms(2) show ?thesis by simp
next
  case (Gather i sep x)
  with assms(1) have "cache s1 (KGather i) = Some r"
    by (auto simp: Let_def split: option.splits prod.splits)
  with Gather assms(2) show ?thesis by simp
qed (use assms(2) in simp_all)

lemma cached_visit:
  assumes "cache_key it = Some k" and "cache t k = Some r"
  shows "cm_visit h it t = Inr (r, t)"
proof (cases it)
  case (Group g)
  obtain i alts where g: "g = Rhs i alts" by (cases g)
  with Group assms show ?thesis by simp
qed (use assms in simp_all)


lemma first_Repeat0:
  assumes "cm_visit h (Repeat0 i x) s = Inr (r, s1)" and "cache s (KRepeat0 i) = None"
  shows "\<exists>nm. r = (Some nm, ''(self '' @ nm @ ''),'') \<and> counter s1 = counter s + 1
          \<and> todo s1 = dict_set nm (new_rule nm (Rhs 0 [Alt [NamedItem None x] None])) (todo s)"
  using assms
  by (intro exI[of _ "''_loop0_'' @ str_nat (counter s + 1)"]) (auto simp: name_loop_def Let_def)

lemma first_Repeat1:
  assumes "cm_visit h (Repeat1 i x) s = Inr (r, s1)" and "cache s (KRepeat1 i) = None"
  shows "\<exists>nm. r = (Some nm, ''(self '' @ nm @ '')'') \<and> counter s1 = counter s + 1
          \<and> todo s1 = dict_set nm (new_rule nm (Rhs 0 [Alt [NamedItem None x] None])) (todo s)"
  using assms
  by (intro exI[of _ "''_loop1_'' @ str_nat (counter s + 1)"]) (auto simp: name_loop_def Let_def)

lemma first_Gather:
  assumes "cm_visit h (Gather i sep x) s = Inr (r, s1)" and "cache s (KGather i) = None"
  shows "\<exists>nm nm2. r = (Some nm, ''(self '' @ nm @ '')'') \<and> nm \<noteq> nm2
          \<and> counter s1 = counter s + 2
          \<and> todo s1 = dict_set nm
               (new_rule nm (Rhs 0 [Alt [NamedItem (Some ''elem'') x,
                                         NamedItem (Some ''seq'') (NameLeaf nm2)] None]))
               (dict_set nm2
                 (new_rule nm2 (Rhs 0 [Alt [NamedItem None sep, NamedItem (Some ''elem'') x]
                                         (Some ''elem'')]))
                 (todo s))"
  using assms
  by (intro exI[of _ "''_gather_'' @ str_nat (counter s + 1)"]
            exI[of _ "''_loop0_'' @ str_nat (counter s + 1 + 1)"])
     (auto simp: name_gather_def Let_def)

lemma first_Group_many:
  assumes "cm_visit h (Group (Rhs i alts)) s = Inr (r, s1)" and "cache s (KRhs i) = None"
    and "\<not> (\<exists>ni act. alts = [Alt [ni] act])"
  shows "\<exists>nm. r = (Some nm, ''(self '' @ nm @ '')'') \<and> counter s1 = counter s + 1
          \<and> todo s1 = dict_set nm (new_rule nm (Rhs i alts)) (todo s)"
  using assms(1) cm_visit_Rhs_synth[OF assms(2) assms(3), of h]
  by (intro exI[of _ "''_tmp_'' @ str_nat (counter s + 1)"]) (auto simp: name_node_def Let_def)

lemma first_Group_one:
  assumes "cm_visit h (Group (Rhs i [Alt [ni] act])) s = Inr (r, s1)" and "cache s (KRhs i) = None"
  shows "\<exists>s0. cm_visit_NamedItem h ni s = Inr (r, s0) \<and> s1 = s0\<lparr>cache := (cache s0)(KRhs i \<mapsto> r)\<rparr>"
  using assms by (auto split: sum.splits)

lemma hit_same:
  assumes "cm_visit h it s = Inr (r, s1)" and "cache_key it = Some k" and "cache s k = Some r0"
  shows "s1 = s \<and> r = r0"
  using cached_visit[OF assms(2) assms(3), of h] assms(1) by simp

section \<open>The separator convention of call texts\<close>

lemma str_nat_1: "str_nat (Suc 0) = ''1''"
  by (simp add: str_nat.simps digit_def)

lemma str_nat_2: "str_nat 2 = ''2''"
  by (simp add: str_nat.simps digit_def)

lemma cache_ok_init: "cache_ok (cache (init_state rs))"
  by (simp add: cache_ok_def init_state_def)

lemma visit_Repeat0_total: "\<exists>r s'. cm_visit h (Repeat0 i x) s = Inr (r, s')"
  by (cases "cache s (KRepeat0 i)") (auto simp: Let_def split: prod.splits)

lemma visit_Repeat1_total: "\<exists>r s'. cm_visit h (Repeat1 i x) s = Inr (r, s')"
  by (cases "cache s (KRepeat1 i)") (auto simp: Let_def split: prod.splits)

lemma visit_Gather_total: "\<exists>r s'. cm_visit h (Gather i sep x) s = Inr (r, s')"
  by (cases "cache s (KGather i)") (auto simp: Let_def split: prod.splits)

text \<open>
  Claim C3. In a state whose cache satisfies the invariant (the empty cache of a new
  call maker does, and every visit keeps it): the visit of a one-or-more repeat returns,
  and its call text does not end in the separator \<^verbatim>\<open>,\<close>; the visit of a zero-or-more
  repeat returns, and its call text ends in one separator; the visit of a gather returns,
  and its call text does not end in the separator. Whenever the visit of an item returns
  a call text, the visit of the optional of that item returns too, with that text when
  it already ends in the separator and with that text and one separator appended when
  it does not, so that the optional's call text ends in exactly one separator; when the
  visit of the item fails, so does that of the optional. No call text ends in two
  separators.
\<close>

theorem separator_convention:
  assumes "cache_ok (cache s)"
  shows "(\<exists>nm call s'. cm_visit h (Repeat1 i x) s = Inr ((nm, call), s')
            \<and> \<not> endswith call '','' \<and> cache_ok (cache s'))
       \<and> (\<exists>nm call s'. cm_visit h (Repeat0 i x) s = Inr ((nm, call), s')
            \<and> endswith call '','' \<and> \<not> endswith call '',,'' \<and> cache_ok (cache s'))
       \<and> (\<exists>nm call s'. cm_visit h (Gather i sep x) s = Inr ((nm, call), s')
            \<and> \<not> endswith call '','' \<and> cache_ok (cache s'))
       \<and> (\<forall>n inner s'. cm_visit h x s = Inr ((n, inner), s') \<longrightarrow>
             cm_visit h (Opt x) s
               = Inr ((Some ''opt'', if endswith inner '','' then inner else inner @ '',''), s')
             \<and> endswith (if endswith inner '','' then inner else inner @ '','') '',''
             \<and> \<not> endswith (if endswith inner '','' then inner else inner @ '','') '',,''
             \<and> cache_ok (cache s'))
       \<and> (\<forall>e. cm_visit h x s = Inl e \<longrightarrow> cm_visit h (Opt x) s = Inl e)
       \<and> (\<forall>it nm call s'. cm_visit h it s = Inr ((nm, call), s') \<longrightarrow>
             \<not> endswith call '',,'' \<and> cache_ok (cache s'))"
proof (intro conjI allI impI)
  obtain r s' where v: "cm_visit h (Repeat1 i x) s = Inr (r, s')"
    using visit_Repeat1_total by blast
  from visit_Repeat1_res[OF v assms] v
  show "\<exists>nm call s'. cm_visit h (Repeat1 i x) s = Inr ((nm, call), s')
            \<and> \<not> endswith call '','' \<and> cache_ok (cache s')"
    by (cases r) (auto simp: entry_ok_def)
next
  obtain r s' where v: "cm_visit h (Repeat0 i x) s = Inr (r, s')"
    using visit_Repeat0_total by blast
  from visit_Repeat0_res[OF v assms] v
  show "\<exists>nm call s'. cm_visit h (Repeat0 i x) s = Inr ((nm, call), s')
            \<and> endswith call '','' \<and> \<not> endswith call '',,'' \<and> cache_ok (cache s')"
    by (cases r) (auto simp: entry_ok_def)
next
  obtain r s' where v: "cm_visit h (Gather i sep x) s = Inr (r, s')"
    using visit_Gather_total by blast
  from visit_Gather_res[OF v assms] v
  show "\<exists>nm call s'. cm_visit h (Gather i sep x) s = Inr ((nm, call), s')
            \<and> \<not> endswith call '','' \<and> cache_ok (cache s')"
    by (cases r) (auto simp: entry_ok_def)
next
  fix n inner s' assume i: "cm_visit h x s = Inr ((n, inner), s')"
  from vis_okD[OF vis_all assms i] have nd: "\<not> endswith inner '',,''" and ok: "cache_ok (cache s')"
    by simp_all
  from i show "cm_visit h (Opt x) s
      = Inr ((Some ''opt'', if endswith inner '','' then inner else inner @ '',''), s')"
    by (simp add: opt_call_def)
  from opt_call_ok[OF nd] show "endswith (if endswith inner '','' then inner else inner @ '','') '',''"
    by (simp add: opt_call_def)
  from opt_call_ok[OF nd] show "\<not> endswith (if endswith inner '','' then inner else inner @ '','') '',,''"
    by (simp add: opt_call_def)
  from ok show "cache_ok (cache s')" .
next
  fix e assume "cm_visit h x s = Inl e"
  then show "cm_visit h (Opt x) s = Inl e" by simp
next
  fix it nm call s' assume v: "cm_visit h it s = Inr ((nm, call), s')"
  from vis_okD[OF vis_all assms v] show "\<not> endswith call '',,''" by simp
  from vis_okD[OF vis_all assms v] show "cache_ok (cache s')" by simp
qed


lemma visit_NameLeaf_x: "cm_visit h (NameLeaf ''x'') s = Inr ((Some ''x'', ''(self x)''), s)"
  by (simp add: visit_NameLeaf_def)

text \<open>
  A new call maker: the optional \<^verbatim>\<open>[x]\<close>, where the separator is appended, and the call
  texts of \<^verbatim>\<open>x+\<close>, \<^verbatim>\<open>x*\<close> and \<^verbatim>\<open>','.x+\<close>.
\<close>

theorem separator_convention_witness:
  "cache_ok (cache (init_state []))
   \<and> cm_visit plain_host (NameLeaf ''x'') (init_state []) = Inr ((Some ''x'', ''(self x)''), init_state [])
   \<and> cm_visit plain_host (Opt (NameLeaf ''x'')) (init_state [])
        = Inr ((Some ''opt'', ''(self x),''), init_state [])
   \<and> endswith ''(self x),'' '','' \<and> \<not> endswith ''(self x),'' '',,''
   \<and> fst (projr (cm_visit plain_host (Repeat1 1 (NameLeaf ''x'')) (init_state [])))
        = (Some ''_loop1_1'', ''(self _loop1_1)'')
   \<and> snd (fst (projr (cm_visit plain_host (Repeat0 1 (NameLeaf ''x'')) (init_state []))))
        = ''(self _loop0_1),''
   \<and> snd (fst (projr (cm_visit plain_host
          (Gather 1 (StringLeaf ([squote] @ '','' @ [squote])) (NameLeaf ''x'')) (init_state []))))
        = ''(self _gather_1)''"
proof -
  have a: "cache_ok (cache (init_state []))" by (rule cache_ok_init)
  have inner: "cm_visit plain_host (NameLeaf ''x'') (init_state [])
      = Inr ((Some ''x'', ''(self x)''), init_state [])" by (rule visit_NameLeaf_x)
  note t = separator_convention[OF a, of plain_host 1 "NameLeaf ''x''"
      "StringLeaf ([squote] @ '','' @ [squote])"]
  note topt = t[THEN conjunct2, THEN conjunct2, THEN conjunct2, THEN conjunct1, rule_format, OF inner]
  from topt have o1: "cm_visit plain_host (Opt (NameLeaf ''x'')) (init_state [])
        = Inr ((Some ''opt'', ''(self x),''), init_state [])"
    by (simp add: endswith_def)
  from topt have o2: "endswith ''(self x),'' '',''" by (simp add: endswith_def)
  from topt have o3: "\<not> endswith ''(self x),'' '',,''" by (simp add: endswith_def)
  have r1: "fst (projr (cm_visit plain_host (Repeat1 1 (NameLeaf ''x'')) (init_state [])))
        = (Some ''_loop1_1'', ''(self _loop1_1)'')"
    by (simp add: init_state_def name_loop_def Let_def str_nat_1)
  have r0: "snd (fst (projr (cm_visit plain_host (Repeat0 1 (NameLeaf ''x'')) (init_state []))))
        = ''(self _loop0_1),''"
    by (simp add: init_state_def name_loop_def Let_def str_nat_1)
  have g: "snd (fst (projr (cm_visit plain_host
          (Gather 1 (StringLeaf ([squote] @ '','' @ [squote])) (NameLeaf ''x'')) (init_state []))))
        = ''(self _gather_1)''"
    by (simp add: init_state_def name_gather_def Let_def str_nat_1)
  show ?thesis
    by (intro conjI) (rule a, rule inner, rule o1, rule o2, rule o3, rule r1, rule r0, rule g)
qed

section \<open>Caching of synthesised rules\<close>

lemma str_nat_SS: "str_nat (Suc (Suc 0)) = ''2''"
  using str_nat_2 by (simp add: numeral_2_eq_2)

lemma projr_total: "\<exists>r s'. f = Inr (r, s') \<Longrightarrow> f = Inr (fst (projr f), snd (projr f))"
  by auto

text \<open>
  Claim C6. Let the visit of a group, a zero-or-more repeat, a one-or-more repeat or a
  gather return the pair \<^verbatim>\<open>r\<close> of bound name and call text and leave the state \<^verbatim>\<open>s1\<close>. Then
  the cache of \<^verbatim>\<open>s1\<close> holds \<^verbatim>\<open>r\<close> for the node, and in every state \<^verbatim>\<open>t\<close> that the generator
  reaches later, after any visits, emitted rules, prints and deletions from the worklist,
  a visit of the same node returns the same pair \<^verbatim>\<open>r\<close> and leaves \<^verbatim>\<open>t\<close> as it is: no rule is
  added and the counter does not move. When the node was not in the cache before the
  first visit, that visit makes one rule for a repeat, named after the counter, and one
  for a group that is not a single item in a single alternative; for a gather it makes
  two rules, the gather's and the loop's, and moves the counter by two; and for a group
  of a single item in a single alternative it makes no rule of its own: its result is
  that of the item, and its state that of the item's visit with the cache entry added.
\<close>

theorem visit_again_cached:
  assumes "cm_visit h it s = Inr (r, s1)" and "cache_key it = Some k" and "later h s1 t"
  shows "cache s1 k = Some r
       \<and> cm_visit h it t = Inr (r, t)
       \<and> (cache s k = None \<longrightarrow>
            (\<forall>i x. it = Repeat0 i x \<longrightarrow>
               (\<exists>nm. r = (Some nm, ''(self '' @ nm @ ''),'') \<and> counter s1 = counter s + 1
                  \<and> todo s1 = dict_set nm (new_rule nm (Rhs 0 [Alt [NamedItem None x] None])) (todo s)))
          \<and> (\<forall>i x. it = Repeat1 i x \<longrightarrow>
               (\<exists>nm. r = (Some nm, ''(self '' @ nm @ '')'') \<and> counter s1 = counter s + 1
                  \<and> todo s1 = dict_set nm (new_rule nm (Rhs 0 [Alt [NamedItem None x] None])) (todo s)))
          \<and> (\<forall>i sep x. it = Gather i sep x \<longrightarrow>
               (\<exists>nm nm2. r = (Some nm, ''(self '' @ nm @ '')'') \<and> nm \<noteq> nm2
                  \<and> counter s1 = counter s + 2
                  \<and> todo s1 = dict_set nm
                       (new_rule nm (Rhs 0 [Alt [NamedItem (Some ''elem'') x,
                                                 NamedItem (Some ''seq'') (NameLeaf nm2)] None]))
                       (dict_set nm2
                         (new_rule nm2 (Rhs 0 [Alt [NamedItem None sep, NamedItem (Some ''elem'') x]
                                                 (Some ''elem'')]))
                         (todo s))))
          \<and> (\<forall>i alts. it = Group (Rhs i alts) \<longrightarrow> \<not> (\<exists>ni act. alts = [Alt [ni] act]) \<longrightarrow>
               (\<exists>nm. r = (Some nm, ''(self '' @ nm @ '')'') \<and> counter s1 = counter s + 1
                  \<and> todo s1 = dict_set nm (new_rule nm (Rhs i alts)) (todo s)))
          \<and> (\<forall>i ni act. it = Group (Rhs i [Alt [ni] act]) \<longrightarrow>
               (\<exists>s0. cm_visit_NamedItem h ni s = Inr (r, s0)
                  \<and> s1 = s0\<lparr>cache := (cache s0)(KRhs i \<mapsto> r)\<rparr>)))"
proof (intro conjI impI allI)
  show c: "cache s1 k = Some r" by (rule first_visit_cached[OF assms(1) assms(2)])
  from later_cache_le[OF assms(3)] c have "cache t k = Some r"
    unfolding cache_le_def by blast
  then show "cm_visit h it t = Inr (r, t)" by (rule cached_visit[OF assms(2)])
next
  fix i x assume n: "cache s k = None" and it: "it = Repeat0 i x"
  from assms(2) it have "k = KRepeat0 i" by simp
  with n assms(1) it show "\<exists>nm. r = (Some nm, ''(self '' @ nm @ ''),'') \<and> counter s1 = counter s + 1
      \<and> todo s1 = dict_set nm (new_rule nm (Rhs 0 [Alt [NamedItem None x] None])) (todo s)"
    by (intro first_Repeat0[of h i]) simp_all
next
  fix i x assume n: "cache s k = None" and it: "it = Repeat1 i x"
  from assms(2) it have "k = KRepeat1 i" by simp
  with n assms(1) it show "\<exists>nm. r = (Some nm, ''(self '' @ nm @ '')'') \<and> counter s1 = counter s + 1
      \<and> todo s1 = dict_set nm (new_rule nm (Rhs 0 [Alt [NamedItem None x] None])) (todo s)"
    by (intro first_Repeat1[of h i]) simp_all
next
  fix i sep x assume n: "cache s k = None" and it: "it = Gather i sep x"
  from assms(2) it have "k = KGather i" by simp
  with n assms(1) it show "\<exists>nm nm2. r = (Some nm, ''(self '' @ nm @ '')'') \<and> nm \<noteq> nm2
                  \<and> counter s1 = counter s + 2
                  \<and> todo s1 = dict_set nm
                       (new_rule nm (Rhs 0 [Alt [NamedItem (Some ''elem'') x,
                                                 NamedItem (Some ''seq'') (NameLeaf nm2)] None]))
                       (dict_set nm2
                         (new_rule nm2 (Rhs 0 [Alt [NamedItem None sep, NamedItem (Some ''elem'') x]
                                                 (Some ''elem'')]))
                         (todo s))"
    by (intro first_Gather[of h i]) simp_all
next
  fix i alts assume n: "cache s k = None" and it: "it = Group (Rhs i alts)"
    and m: "\<not> (\<exists>ni act. alts = [Alt [ni] act])"
  from assms(2) it have "k = KRhs i" by simp
  with n assms(1) it m show "\<exists>nm. r = (Some nm, ''(self '' @ nm @ '')'') \<and> counter s1 = counter s + 1
                  \<and> todo s1 = dict_set nm (new_rule nm (Rhs i alts)) (todo s)"
    by (intro first_Group_many[of h i]) simp_all
next
  fix i ni act assume n: "cache s k = None" and it: "it = Group (Rhs i [Alt [ni] act])"
  from assms(2) it have "k = KRhs i" by simp
  with n assms(1) it show "\<exists>s0. cm_visit_NamedItem h ni s = Inr (r, s0)
                  \<and> s1 = s0\<lparr>cache := (cache s0)(KRhs i \<mapsto> r)\<rparr>"
    by (intro first_Group_one[of h i _ act]) simp_all
qed


text \<open>
  A new call maker. The repeat \<^verbatim>\<open>x+\<close> is visited, then another repeat \<^verbatim>\<open>x*\<close>, then a line
  is printed, and \<^verbatim>\<open>x+\<close> is visited again: the answer is the first one, and the worklist
  holds one rule for each repeat. Then the first visits, by a new call maker, of a
  gather, of a group of one item, of a group of two alternatives and of a zero-or-more
  repeat.
\<close>

theorem visit_again_cached_witness:
  "cm_visit plain_host (Repeat1 7 (NameLeaf ''x'')) (init_state []) = Inr ((Some ''_loop1_1'', ''(self _loop1_1)''), (snd (projr (cm_visit plain_host (Repeat1 7 (NameLeaf ''x'')) (init_state [])))))
   \<and> cache_key (Repeat1 7 (NameLeaf ''x'')) = Some (KRepeat1 7)
   \<and> later plain_host (snd (projr (cm_visit plain_host (Repeat1 7 (NameLeaf ''x'')) (init_state [])))) (gen_print ''(self x)'' (snd (projr (cm_visit plain_host (Repeat0 8 (NameLeaf ''x'')) (snd (projr (cm_visit plain_host (Repeat1 7 (NameLeaf ''x'')) (init_state []))))))))
   \<and> cm_visit plain_host (Repeat1 7 (NameLeaf ''x'')) (gen_print ''(self x)'' (snd (projr (cm_visit plain_host (Repeat0 8 (NameLeaf ''x'')) (snd (projr (cm_visit plain_host (Repeat1 7 (NameLeaf ''x'')) (init_state [])))))))) = Inr ((Some ''_loop1_1'', ''(self _loop1_1)''), (gen_print ''(self x)'' (snd (projr (cm_visit plain_host (Repeat0 8 (NameLeaf ''x'')) (snd (projr (cm_visit plain_host (Repeat1 7 (NameLeaf ''x'')) (init_state [])))))))))
   \<and> cache (snd (projr (cm_visit plain_host (Repeat1 7 (NameLeaf ''x'')) (init_state [])))) (KRepeat1 7) = Some (Some ''_loop1_1'', ''(self _loop1_1)'')
   \<and> cache (init_state []) (KRepeat1 7) = None
   \<and> (\<exists>nm. (Some ''_loop1_1'', ''(self _loop1_1)'') = (Some nm, ''(self '' @ nm @ '')'') \<and> counter (snd (projr (cm_visit plain_host (Repeat1 7 (NameLeaf ''x'')) (init_state [])))) = counter (init_state []) + 1
        \<and> todo (snd (projr (cm_visit plain_host (Repeat1 7 (NameLeaf ''x'')) (init_state [])))) = dict_set nm (new_rule nm (Rhs 0 [Alt [NamedItem None (NameLeaf ''x'')] None])) (todo (init_state [])))
   \<and> map fst (todo (gen_print ''(self x)'' (snd (projr (cm_visit plain_host (Repeat0 8 (NameLeaf ''x'')) (snd (projr (cm_visit plain_host (Repeat1 7 (NameLeaf ''x'')) (init_state []))))))))) = [''_loop1_1'', ''_loop0_2'']
   \<and> cm_visit plain_host (Gather 1 (StringLeaf ([squote] @ '','' @ [squote])) (NameLeaf ''x'')) (init_state []) = Inr ((Some ''_gather_1'', ''(self _gather_1)''), (snd (projr (cm_visit plain_host (Gather 1 (StringLeaf ([squote] @ '','' @ [squote])) (NameLeaf ''x'')) (init_state [])))))
   \<and> (\<exists>nm nm2. (Some ''_gather_1'', ''(self _gather_1)'') = (Some nm, ''(self '' @ nm @ '')'') \<and> nm \<noteq> nm2
        \<and> counter (snd (projr (cm_visit plain_host (Gather 1 (StringLeaf ([squote] @ '','' @ [squote])) (NameLeaf ''x'')) (init_state [])))) = counter (init_state []) + 2
        \<and> todo (snd (projr (cm_visit plain_host (Gather 1 (StringLeaf ([squote] @ '','' @ [squote])) (NameLeaf ''x'')) (init_state [])))) = dict_set nm
              (new_rule nm (Rhs 0 [Alt [NamedItem (Some ''elem'') (NameLeaf ''x''),
                                        NamedItem (Some ''seq'') (NameLeaf nm2)] None]))
              (dict_set nm2
                (new_rule nm2 (Rhs 0 [Alt [NamedItem None (StringLeaf ([squote] @ '','' @ [squote])), NamedItem (Some ''elem'') (NameLeaf ''x'')]
                                        (Some ''elem'')]))
                (todo (init_state []))))
   \<and> cm_visit plain_host (Group (Rhs 1 [Alt [NamedItem None (NameLeaf ''x'')] None])) (init_state []) = Inr ((Some ''x'', ''(self x)''), (snd (projr (cm_visit plain_host (Group (Rhs 1 [Alt [NamedItem None (NameLeaf ''x'')] None])) (init_state [])))))
   \<and> (\<exists>s0. cm_visit_NamedItem plain_host (NamedItem None (NameLeaf ''x'')) (init_state []) = Inr ((Some ''x'', ''(self x)''), s0)
        \<and> (snd (projr (cm_visit plain_host (Group (Rhs 1 [Alt [NamedItem None (NameLeaf ''x'')] None])) (init_state [])))) = s0\<lparr>cache := (cache s0)(KRhs 1 \<mapsto> (Some ''x'', ''(self x)''))\<rparr>)
   \<and> cm_visit plain_host (Group (Rhs 2 [Alt [NamedItem None (NameLeaf ''x'')] None, Alt [NamedItem None (NameLeaf ''y'')] None])) (init_state []) = Inr ((Some ''_tmp_1'', ''(self _tmp_1)''), (snd (projr (cm_visit plain_host (Group (Rhs 2 [Alt [NamedItem None (NameLeaf ''x'')] None, Alt [NamedItem None (NameLeaf ''y'')] None])) (init_state [])))))
   \<and> (\<exists>nm. (Some ''_tmp_1'', ''(self _tmp_1)'') = (Some nm, ''(self '' @ nm @ '')'') \<and> counter (snd (projr (cm_visit plain_host (Group (Rhs 2 [Alt [NamedItem None (NameLeaf ''x'')] None, Alt [NamedItem None (NameLeaf ''y'')] None])) (init_state [])))) = counter (init_state []) + 1
        \<and> todo (snd (projr (cm_visit plain_host (Group (Rhs 2 [Alt [NamedItem None (NameLeaf ''x'')] None, Alt [NamedItem None (NameLeaf ''y'')] None])) (init_state [])))) = dict_set nm (new_rule nm (Rhs 2 [Alt [NamedItem None (NameLeaf ''x'')] None, Alt [NamedItem None (NameLeaf ''y'')] None])) (todo (init_state [])))
   \<and> cm_visit plain_host (Repeat0 3 (NameLeaf ''x'')) (init_state []) = Inr ((Some ''_loop0_1'', ''(self _loop0_1),''), (snd (projr (cm_visit plain_host (Repeat0 3 (NameLeaf ''x'')) (init_state [])))))
   \<and> (\<exists>nm. (Some ''_loop0_1'', ''(self _loop0_1),'') = (Some nm, ''(self '' @ nm @ ''),'') \<and> counter (snd (projr (cm_visit plain_host (Repeat0 3 (NameLeaf ''x'')) (init_state [])))) = counter (init_state []) + 1
        \<and> todo (snd (projr (cm_visit plain_host (Repeat0 3 (NameLeaf ''x'')) (init_state [])))) = dict_set nm (new_rule nm (Rhs 0 [Alt [NamedItem None (NameLeaf ''x'')] None])) (todo (init_state [])))"
proof -
  have w1: "cm_visit plain_host (Repeat1 7 (NameLeaf ''x'')) (init_state []) = Inr ((Some ''_loop1_1'', ''(self _loop1_1)''), (snd (projr (cm_visit plain_host (Repeat1 7 (NameLeaf ''x'')) (init_state [])))))"
    by (simp add: init_state_def name_loop_def name_node_def name_gather_def Let_def str_nat_1 str_nat_2 str_nat_SS visit_NameLeaf_def truthy_def)
  have w2: "cache_key (Repeat1 7 (NameLeaf ''x'')) = Some (KRepeat1 7)" by simp
  have b: "cm_visit plain_host (Repeat0 8 (NameLeaf ''x'')) (snd (projr (cm_visit plain_host (Repeat1 7 (NameLeaf ''x'')) (init_state [])))) = Inr (fst (projr (cm_visit plain_host (Repeat0 8 (NameLeaf ''x'')) (snd (projr (cm_visit plain_host (Repeat1 7 (NameLeaf ''x'')) (init_state [])))))), (snd (projr (cm_visit plain_host (Repeat0 8 (NameLeaf ''x'')) (snd (projr (cm_visit plain_host (Repeat1 7 (NameLeaf ''x'')) (init_state []))))))))"
    by (rule projr_total) (rule visit_Repeat0_total)
  have w3: "later plain_host (snd (projr (cm_visit plain_host (Repeat1 7 (NameLeaf ''x'')) (init_state [])))) (gen_print ''(self x)'' (snd (projr (cm_visit plain_host (Repeat0 8 (NameLeaf ''x'')) (snd (projr (cm_visit plain_host (Repeat1 7 (NameLeaf ''x'')) (init_state []))))))))"
    by (rule later_other[OF later_visit[OF later_now b]]) simp
  note t = visit_again_cached[OF w1 w2 w3]
  have w6: "cache (init_state []) (KRepeat1 7) = None" by (simp add: init_state_def)
  have w8: "map fst (todo (gen_print ''(self x)'' (snd (projr (cm_visit plain_host (Repeat0 8 (NameLeaf ''x'')) (snd (projr (cm_visit plain_host (Repeat1 7 (NameLeaf ''x'')) (init_state []))))))))) = [''_loop1_1'', ''_loop0_2'']"
    by (simp add: init_state_def name_loop_def name_node_def name_gather_def Let_def str_nat_1 str_nat_2 str_nat_SS visit_NameLeaf_def truthy_def)
  have kg: "cache_key (Gather 1 (StringLeaf ([squote] @ '','' @ [squote])) (NameLeaf ''x'')) = Some (KGather 1)" by simp
  have ko: "cache_key (Group (Rhs 1 [Alt [NamedItem None (NameLeaf ''x'')] None])) = Some (KRhs 1)" by simp
  have km: "cache_key (Group (Rhs 2 [Alt [NamedItem None (NameLeaf ''x'')] None, Alt [NamedItem None (NameLeaf ''y'')] None])) = Some (KRhs 2)" by simp
  have kz: "cache_key (Repeat0 3 (NameLeaf ''x'')) = Some (KRepeat0 3)" by simp
  have ng: "cache (init_state []) (KGather 1) = None" by (simp add: init_state_def)
  have no: "cache (init_state []) (KRhs 1) = None" by (simp add: init_state_def)
  have nm: "cache (init_state []) (KRhs 2) = None" by (simp add: init_state_def)
  have nz: "cache (init_state []) (KRepeat0 3) = None" by (simp add: init_state_def)
  have g1: "cm_visit plain_host (Gather 1 (StringLeaf ([squote] @ '','' @ [squote])) (NameLeaf ''x'')) (init_state []) = Inr ((Some ''_gather_1'', ''(self _gather_1)''), (snd (projr (cm_visit plain_host (Gather 1 (StringLeaf ([squote] @ '','' @ [squote])) (NameLeaf ''x'')) (init_state [])))))"
    by (simp add: init_state_def name_loop_def name_node_def name_gather_def Let_def str_nat_1 str_nat_2 str_nat_SS visit_NameLeaf_def truthy_def)
  have o1: "cm_visit plain_host (Group (Rhs 1 [Alt [NamedItem None (NameLeaf ''x'')] None])) (init_state []) = Inr ((Some ''x'', ''(self x)''), (snd (projr (cm_visit plain_host (Group (Rhs 1 [Alt [NamedItem None (NameLeaf ''x'')] None])) (init_state [])))))"
    by (simp add: init_state_def name_loop_def name_node_def name_gather_def Let_def str_nat_1 str_nat_2 str_nat_SS visit_NameLeaf_def truthy_def)
  have m1: "cm_visit plain_host (Group (Rhs 2 [Alt [NamedItem None (NameLeaf ''x'')] None, Alt [NamedItem None (NameLeaf ''y'')] None])) (init_state []) = Inr ((Some ''_tmp_1'', ''(self _tmp_1)''), (snd (projr (cm_visit plain_host (Group (Rhs 2 [Alt [NamedItem None (NameLeaf ''x'')] None, Alt [NamedItem None (NameLeaf ''y'')] None])) (init_state [])))))"
    by (simp add: init_state_def name_loop_def name_node_def name_gather_def Let_def str_nat_1 str_nat_2 str_nat_SS visit_NameLeaf_def truthy_def)
  have z1: "cm_visit plain_host (Repeat0 3 (NameLeaf ''x'')) (init_state []) = Inr ((Some ''_loop0_1'', ''(self _loop0_1),''), (snd (projr (cm_visit plain_host (Repeat0 3 (NameLeaf ''x'')) (init_state [])))))"
    by (simp add: init_state_def name_loop_def name_node_def name_gather_def Let_def str_nat_1 str_nat_2 str_nat_SS visit_NameLeaf_def truthy_def)
  have many: "\<not> (\<exists>ni act. [Alt [NamedItem None (NameLeaf ''x'')] None, Alt [NamedItem None (NameLeaf ''y'')] None] = [Alt [ni] act])" by simp
  note first = t[THEN conjunct2, THEN conjunct2, THEN mp, OF w6]
  note tg = visit_again_cached[OF g1 kg later_now, THEN conjunct2, THEN conjunct2, THEN mp, OF ng]
  note to = visit_again_cached[OF o1 ko later_now, THEN conjunct2, THEN conjunct2, THEN mp, OF no]
  note tm = visit_again_cached[OF m1 km later_now, THEN conjunct2, THEN conjunct2, THEN mp, OF nm]
  note tz = visit_again_cached[OF z1 kz later_now, THEN conjunct2, THEN conjunct2, THEN mp, OF nz]
  show ?thesis
    by (intro conjI)
       (rule w1, rule w2, rule w3, rule t[THEN conjunct2, THEN conjunct1], rule t[THEN conjunct1],
        rule w6, rule first[THEN conjunct2, THEN conjunct1, rule_format, OF refl], rule w8,
        rule g1, rule tg[THEN conjunct2, THEN conjunct2, THEN conjunct1, rule_format, OF refl],
        rule o1,
        rule to[THEN conjunct2, THEN conjunct2, THEN conjunct2, THEN conjunct2, rule_format, OF refl],
        rule m1,
        rule tm[THEN conjunct2, THEN conjunct2, THEN conjunct2, THEN conjunct1, rule_format, OF refl many],
        rule z1, rule tz[THEN conjunct1, rule_format, OF refl])
qed

text \<open>
  Not every node yields one rule: the first visit of the gather \<^verbatim>\<open>','.x+\<close> puts two rules
  on the worklist, and the first visit of the group \<^verbatim>\<open>(x)\<close> puts none there and moves no
  counter; it caches the call of \<^verbatim>\<open>x\<close>.
\<close>

theorem one_rule_per_node_counterexample:
  "map fst (todo (snd (projr (cm_visit plain_host (Gather 1 (StringLeaf ([squote] @ '','' @ [squote])) (NameLeaf ''x'')) (init_state []))))) = [''_loop0_2'', ''_gather_1'']
   \<and> counter (snd (projr (cm_visit plain_host (Gather 1 (StringLeaf ([squote] @ '','' @ [squote])) (NameLeaf ''x'')) (init_state [])))) = 2
   \<and> fst (projr (cm_visit plain_host (Group (Rhs 1 [Alt [NamedItem None (NameLeaf ''x'')] None])) (init_state []))) = (Some ''x'', ''(self x)'')
   \<and> todo (snd (projr (cm_visit plain_host (Group (Rhs 1 [Alt [NamedItem None (NameLeaf ''x'')] None])) (init_state [])))) = []
   \<and> counter (snd (projr (cm_visit plain_host (Group (Rhs 1 [Alt [NamedItem None (NameLeaf ''x'')] None])) (init_state [])))) = 0"
  by (simp add: init_state_def name_loop_def name_node_def name_gather_def Let_def str_nat_1 str_nat_2 str_nat_SS visit_NameLeaf_def truthy_def)

section \<open>The emitted text of an example rule\<close>

lemma escape_plus: "escape plus_literal = Inr ([dquote] @ plus_literal @ [dquote])"
  by (simp add: escape_def janet_str_def isascii_def isprintable_def plus_literal_def)

lemma visit_NAME: "visit_NameLeaf ''NAME'' = Inr (Some ''name'', ''(self name)'')"
  by (simp add: visit_NameLeaf_def lower_def lower_char_def)

lemma visit_NUMBER: "visit_NameLeaf ''NUMBER'' = Inr (Some ''number'', ''(self number)'')"
  by (simp add: visit_NameLeaf_def lower_def lower_char_def)

lemma plus_exact: "endswith plus_literal [squote]"
  by (simp add: endswith_def plus_literal_def)

lemma visit_plus_eq:
  assumes "literal_eval h plus_literal = Some v"
  shows "visit_StringLeaf h plus_literal s
            = Inr ((Some ''literal'', ''(expect '' @ [dquote] @ plus_literal @ [dquote] @ '')''),
                   if keyword_match h v then s\<lparr>exact_keywords := finsert v (exact_keywords s)\<rparr> else s)"
  using assms by (simp add: visit_StringLeaf_def escape_plus Let_def plus_exact)

lemma sel_if:
  "out (if c then a else b) = (if c then out a else out b)"
  "level (if c then a else b) = (if c then level a else level b)"
  "local_variable_stack (if c then a else b) = (if c then local_variable_stack a else local_variable_stack b)"
  "cleanup_statements (if c then a else b) = (if c then cleanup_statements a else cleanup_statements b)"
  by simp_all

lemma start_alt:
  assumes "literal_eval h plus_literal = Some v"
  shows "\<exists>s'. gen_visit_Alt h (Alt [NamedItem None (NameLeaf ''NAME''), NamedItem None (StringLeaf plus_literal),
             NamedItem None (NameLeaf ''NUMBER'')] None) False False s = Inr s'
     \<and> out s' = out s @ [(level s, ''(when (and ''),
                          (level s + 1, ''(var name (self name))''),
                          (level s + 1, ''(var literal (expect '' @ [dquote] @ plus_literal @ [dquote] @ ''))''),
                          (level s + 1, ''(var number (self number))''),
                          (level s, '')'')]
           @ map (\<lambda>l. (level s + 1, l)) (cleanup_statements s)
           @ [(level s + 1, ''(return [name, literal, number])''),
              (level s, ''(:_reset self mark)'')]
     \<and> level s' = level s \<and> cleanup_statements s' = cleanup_statements s
     \<and> local_variable_stack s' = local_variable_stack s"
  using assms
  by (simp add: gen_visit_Alt_def alt_action_def has_cut_def startswith_def
        gen_visit_NamedItem_def visit_NAME visit_NUMBER visit_plus_eq print_item_def
        item_name_def truthy_def Let_def dedupe_def dedupe_loop.simps sel_if
        print_action_def default_action_def local_variable_names_def add_return_fields)


lemma start_rule_lines:
  assumes "literal_eval h plus_literal = Some v" and "cleanup_statements s = []"
  shows "\<exists>s'. gen_visit_Rule h (start_rule\<lparr>left_recursive := lr, leader := ld\<rparr>) s = Inr s'
     \<and> out s' = out s @
        [(level s, definition_line (start_rule\<lparr>left_recursive := lr, leader := ld\<rparr>)),
         (level s + 1, ''# start: '' @ rhs_str h start_rhs),
         (level s + 1, ''(var mark (:_mark self))''),
         (level s + 1, ''(when (and ''),
         (level s + 2, ''(var name (self name))''),
         (level s + 2, ''(var literal (expect '' @ [dquote] @ plus_literal @ [dquote] @ ''))''),
         (level s + 2, ''(var number (self number))''),
         (level s + 1, '')''),
         (level s + 2, ''(return [name, literal, number])''),
         (level s + 1, ''(:_reset self mark)''),
         (level s + 1, ''(return None)''),
         (level s, '')'')]"
proof -
  define node where "node = start_rule\<lparr>left_recursive := lr, leader := ld\<rparr>"
  define s7 where "s7 = gen_print ''(var mark (:_mark self))''
      (gen_print (''# start: '' @ rhs_str h start_rhs)
         (indent (gen_print (definition_line node) s)))"
  from start_alt[OF assms(1), of s7] obtain s8 where
    a: "gen_visit_Alt h (Alt [NamedItem None (NameLeaf ''NAME''), NamedItem None (StringLeaf plus_literal),
             NamedItem None (NameLeaf ''NUMBER'')] None) False False s7 = Inr s8"
    and o: "out s8 = out s7 @ [(level s7, ''(when (and ''),
                          (level s7 + 1, ''(var name (self name))''),
                          (level s7 + 1, ''(var literal (expect '' @ [dquote] @ plus_literal @ [dquote] @ ''))''),
                          (level s7 + 1, ''(var number (self number))''),
                          (level s7, '')'')]
           @ map (\<lambda>l. (level s7 + 1, l)) (cleanup_statements s7)
           @ [(level s7 + 1, ''(return [name, literal, number])''),
              (level s7, ''(:_reset self mark)'')]"
    and l: "level s8 = level s7" and c: "cleanup_statements s8 = cleanup_statements s7"
    by blast
  have f7: "level s7 = level s + 1" "cleanup_statements s7 = []"
    "out s7 = out s @ [(level s, definition_line node),
         (level s + 1, ''# start: '' @ rhs_str h start_rhs),
         (level s + 1, ''(var mark (:_mark self))'')]"
    using assms(2) by (simp_all add: s7_def)
  have n: "rule_name node = ''start''" "rule_rhs node = start_rhs" "nullable node = False"
    by (simp_all add: node_def start_rule_def)
  have r: "gen_visit_Rule h node s = Inr (gen_print '')'' (dedent (add_return ''None'' s8)))"
    using a unfolding s7_def
    by (simp add: gen_visit_Rule_def n start_rhs_def is_loop_def is_gather_def
          startswith_def flatten_def without_invalid_def
          endswith_def gen_visit_Rhs_def action_mentions_def Let_def)
  show ?thesis
    unfolding r node_def[symmetric] using o l c f7 by (simp add: add_return_fields)
qed

lemma start_rule_flags: "start_rule\<lparr>left_recursive := False, leader := False\<rparr> = start_rule"
  by (simp add: start_rule_def)

lemma start_definition_line: "definition_line start_rule = ''(decorated-defn [@memoize] start [self]''"
  by (simp add: definition_line_def decorators_def start_rule_def)

lemma plain_plus: "literal_eval plain_host plus_literal = Some ''+''"
  by (simp add: plain_host_def example_literals_def plus_literal_def)

lemma init_fields [simp]: "out (init_state rs) = []" "level (init_state rs) = 0"
  "cleanup_statements (init_state rs) = []" "cache (init_state rs) = Map.empty"
  "counter (init_state rs) = 0" "todo (init_state rs) = map (\<lambda>r. (rule_name r, r)) rs"
  "local_variable_stack (init_state rs) = []"
  by (simp_all add: init_state_def)

lemma plain_rhs_str [simp]: "rhs_str plain_host r = ''...''"
  by (simp add: plain_host_def)

section \<open>The decoration of a rule\<close>

text \<open>
  Claim C2. The list of decorations of a rule has one entry, chosen by the two flags of
  the rule: \<^verbatim>\<open>memoize_left_rec\<close> for a left-recursive leader, \<^verbatim>\<open>@logger\<close> (no memoization) for
  a left-recursive rule that is not a leader, and \<^verbatim>\<open>@memoize\<close> for every other rule. Whenever
  the visit of a rule returns, the first line it printed is the definition of a function
  of that name with that decoration: \<^verbatim>\<open>(decorated-defn [decoration] name [self]\<close>.
\<close>

theorem decoration_by_flags:
  assumes "gen_visit_Rule h node s = Inr s'"
  shows "decorators node = [if left_recursive node then (if leader node then ''memoize_left_rec'' else ''@logger'') else ''@memoize'']
       \<and> (\<exists>rest. out s' = out s @
             (level s, ''(decorated-defn ['' @ (if left_recursive node then (if leader node then ''memoize_left_rec'' else ''@logger'') else ''@memoize'') @ ''] '' @ rule_name node @ '' [self]'') # rest)"
proof
  show "decorators node = [if left_recursive node then (if leader node then ''memoize_left_rec'' else ''@logger'') else ''@memoize'']"
    by (simp add: decorators_def)
  from gen_visit_Rule_grows[OF assms] obtain rest where
    "out s' = out s @ (level s, definition_line node) # rest" by blast
  then show "\<exists>rest. out s' = out s @
             (level s, ''(decorated-defn ['' @ (if left_recursive node then (if leader node then ''memoize_left_rec'' else ''@logger'') else ''@memoize'') @ ''] '' @ rule_name node @ '' [self]'') # rest"
    by (simp add: definition_line_def decorators_def)
qed

text \<open>The example rule under the four settings of the two flags, by a new generator.\<close>

theorem decoration_by_flags_witness:
  "gen_visit_Rule plain_host (start_rule\<lparr>left_recursive := True, leader := True\<rparr>) (init_state []) = Inr (projr (gen_visit_Rule plain_host (start_rule\<lparr>left_recursive := True, leader := True\<rparr>) (init_state [])))
   \<and> decorators (start_rule\<lparr>left_recursive := True, leader := True\<rparr>) = [''memoize_left_rec'']
   \<and> (\<exists>rest. out (projr (gen_visit_Rule plain_host (start_rule\<lparr>left_recursive := True, leader := True\<rparr>) (init_state []))) = (0, ''(decorated-defn [memoize_left_rec] start [self]'') # rest)
   \<and> gen_visit_Rule plain_host (start_rule\<lparr>left_recursive := True, leader := False\<rparr>) (init_state []) = Inr (projr (gen_visit_Rule plain_host (start_rule\<lparr>left_recursive := True, leader := False\<rparr>) (init_state [])))
   \<and> decorators (start_rule\<lparr>left_recursive := True, leader := False\<rparr>) = [''@logger'']
   \<and> (\<exists>rest. out (projr (gen_visit_Rule plain_host (start_rule\<lparr>left_recursive := True, leader := False\<rparr>) (init_state []))) = (0, ''(decorated-defn [@logger] start [self]'') # rest)
   \<and> gen_visit_Rule plain_host (start_rule\<lparr>left_recursive := False, leader := False\<rparr>) (init_state []) = Inr (projr (gen_visit_Rule plain_host (start_rule\<lparr>left_recursive := False, leader := False\<rparr>) (init_state [])))
   \<and> decorators (start_rule\<lparr>left_recursive := False, leader := False\<rparr>) = [''@memoize'']
   \<and> (\<exists>rest. out (projr (gen_visit_Rule plain_host (start_rule\<lparr>left_recursive := False, leader := False\<rparr>) (init_state []))) = (0, ''(decorated-defn [@memoize] start [self]'') # rest)
   \<and> gen_visit_Rule plain_host (start_rule\<lparr>left_recursive := False, leader := True\<rparr>) (init_state []) = Inr (projr (gen_visit_Rule plain_host (start_rule\<lparr>left_recursive := False, leader := True\<rparr>) (init_state [])))
   \<and> decorators (start_rule\<lparr>left_recursive := False, leader := True\<rparr>) = [''@memoize'']
   \<and> (\<exists>rest. out (projr (gen_visit_Rule plain_host (start_rule\<lparr>left_recursive := False, leader := True\<rparr>) (init_state []))) = (0, ''(decorated-defn [@memoize] start [self]'') # rest)"
proof -
  have b: "cleanup_statements (init_state []) = []" by simp
  from start_rule_lines[OF plain_plus b, where lr=True and ld=True]
  have h0: "gen_visit_Rule plain_host (start_rule\<lparr>left_recursive := True, leader := True\<rparr>) (init_state []) = Inr (projr (gen_visit_Rule plain_host (start_rule\<lparr>left_recursive := True, leader := True\<rparr>) (init_state [])))"
    by auto
  note t0 = decoration_by_flags[OF h0]
  have d0: "decorators (start_rule\<lparr>left_recursive := True, leader := True\<rparr>) = [''memoize_left_rec'']"
    using t0[THEN conjunct1] by simp
  have o0: "\<exists>rest. out (projr (gen_visit_Rule plain_host (start_rule\<lparr>left_recursive := True, leader := True\<rparr>) (init_state []))) = (0, ''(decorated-defn [memoize_left_rec] start [self]'') # rest"
    using t0[THEN conjunct2] by (simp add: start_rule_def)
  from start_rule_lines[OF plain_plus b, where lr=True and ld=False]
  have h1: "gen_visit_Rule plain_host (start_rule\<lparr>left_recursive := True, leader := False\<rparr>) (init_state []) = Inr (projr (gen_visit_Rule plain_host (start_rule\<lparr>left_recursive := True, leader := False\<rparr>) (init_state [])))"
    by auto
  note t1 = decoration_by_flags[OF h1]
  have d1: "decorators (start_rule\<lparr>left_recursive := True, leader := False\<rparr>) = [''@logger'']"
    using t1[THEN conjunct1] by simp
  have o1: "\<exists>rest. out (projr (gen_visit_Rule plain_host (start_rule\<lparr>left_recursive := True, leader := False\<rparr>) (init_state []))) = (0, ''(decorated-defn [@logger] start [self]'') # rest"
    using t1[THEN conjunct2] by (simp add: start_rule_def)
  from start_rule_lines[OF plain_plus b, where lr=False and ld=False]
  have h2: "gen_visit_Rule plain_host (start_rule\<lparr>left_recursive := False, leader := False\<rparr>) (init_state []) = Inr (projr (gen_visit_Rule plain_host (start_rule\<lparr>left_recursive := False, leader := False\<rparr>) (init_state [])))"
    by auto
  note t2 = decoration_by_flags[OF h2]
  have d2: "decorators (start_rule\<lparr>left_recursive := False, leader := False\<rparr>) = [''@memoize'']"
    using t2[THEN conjunct1] by simp
  have o2: "\<exists>rest. out (projr (gen_visit_Rule plain_host (start_rule\<lparr>left_recursive := False, leader := False\<rparr>) (init_state []))) = (0, ''(decorated-defn [@memoize] start [self]'') # rest"
    using t2[THEN conjunct2] by (simp add: start_rule_def)
  from start_rule_lines[OF plain_plus b, where lr=False and ld=True]
  have h3: "gen_visit_Rule plain_host (start_rule\<lparr>left_recursive := False, leader := True\<rparr>) (init_state []) = Inr (projr (gen_visit_Rule plain_host (start_rule\<lparr>left_recursive := False, leader := True\<rparr>) (init_state [])))"
    by auto
  note t3 = decoration_by_flags[OF h3]
  have d3: "decorators (start_rule\<lparr>left_recursive := False, leader := True\<rparr>) = [''@memoize'']"
    using t3[THEN conjunct1] by simp
  have o3: "\<exists>rest. out (projr (gen_visit_Rule plain_host (start_rule\<lparr>left_recursive := False, leader := True\<rparr>) (init_state []))) = (0, ''(decorated-defn [@memoize] start [self]'') # rest"
    using t3[THEN conjunct2] by (simp add: start_rule_def)
  show ?thesis
    by (intro conjI) (rule h0, rule d0, rule o0, rule h1, rule d1, rule o1, rule h2, rule d2, rule o2, rule h3, rule d3, rule o3)
qed

section \<open>The function emitted for a rule of three items\<close>

text \<open>
  Claim C4. For the grammar \<^verbatim>\<open>start: NAME '+' NUMBER\<close> with no action, on any host whose
  \<^verbatim>\<open>ast.literal_eval\<close> accepts the literal, and with no cleanup statement pending, the visit
  of the rule returns and prints exactly these lines: the definition, one alternative
  that binds \<^verbatim>\<open>name\<close> to the name terminal, then \<^verbatim>\<open>literal\<close> to the literal \<^verbatim>\<open>'+'\<close>, then
  \<^verbatim>\<open>number\<close> to the number terminal, and whose result is the sequence of the three bound
  values, \<^verbatim>\<open>[name, literal, number]\<close>: the call maker names every string leaf \<^verbatim>\<open>literal\<close>, so
  the literal is bound and is part of the result.
\<close>

theorem start_rule_emitted:
  assumes "literal_eval h plus_literal = Some v" and "cleanup_statements s = []"
  shows "\<exists>s'. gen_visit_Rule h start_rule s = Inr s'
     \<and> out s' = out s @
        [(level s, ''(decorated-defn [@memoize] start [self]''),
         (level s + 1, ''# start: '' @ rhs_str h start_rhs),
         (level s + 1, ''(var mark (:_mark self))''),
         (level s + 1, ''(when (and ''),
         (level s + 2, ''(var name (self name))''),
         (level s + 2, ''(var literal (expect '' @ [dquote] @ plus_literal @ [dquote] @ ''))''),
         (level s + 2, ''(var number (self number))''),
         (level s + 1, '')''),
         (level s + 2, ''(return [name, literal, number])''),
         (level s + 1, ''(:_reset self mark)''),
         (level s + 1, ''(return None)''),
         (level s, '')'')]"
  using start_rule_lines[OF assms, where lr=False and ld=False]
  by (simp only: start_rule_flags start_definition_line)

text \<open>The example host and a new generator for this grammar.\<close>

theorem start_rule_emitted_witness:
  "literal_eval plain_host plus_literal = Some ''+''
   \<and> cleanup_statements (init_state [start_rule]) = []
   \<and> (\<exists>s'. gen_visit_Rule plain_host start_rule (init_state [start_rule]) = Inr s'
     \<and> out s' =
        [(0, ''(decorated-defn [@memoize] start [self]''),
         (1, ''# start: ...''),
         (1, ''(var mark (:_mark self))''),
         (1, ''(when (and ''),
         (2, ''(var name (self name))''),
         (2, ''(var literal (expect '' @ [dquote] @ plus_literal @ [dquote] @ ''))''),
         (2, ''(var number (self number))''),
         (1, '')''),
         (2, ''(return [name, literal, number])''),
         (1, ''(:_reset self mark)''),
         (1, ''(return None)''),
         (0, '')'')])"
proof -
  have b: "cleanup_statements (init_state [start_rule]) = []" by simp
  from start_rule_emitted[OF plain_plus b]
  have c: "\<exists>s'. gen_visit_Rule plain_host start_rule (init_state [start_rule]) = Inr s'
     \<and> out s' =
        [(0, ''(decorated-defn [@memoize] start [self]''),
         (1, ''# start: ...''),
         (1, ''(var mark (:_mark self))''),
         (1, ''(when (and ''),
         (2, ''(var name (self name))''),
         (2, ''(var literal (expect '' @ [dquote] @ plus_literal @ [dquote] @ ''))''),
         (2, ''(var number (self number))''),
         (1, '')''),
         (2, ''(return [name, literal, number])''),
         (1, ''(:_reset self mark)''),
         (1, ''(return None)''),
         (0, '')'')]"
    by (simp add: numeral_2_eq_2)
  show ?thesis by (intro conjI) (rule plain_plus, rule b, rule c)
qed

text \<open>
  The result is not the sequence of the name and the number only: the sixth line printed
  binds the literal, and the ninth returns it between the two.
\<close>

theorem result_without_literal_counterexample:
  "out (projr (gen_visit_Rule plain_host start_rule (init_state [start_rule]))) ! 5
     = (2, ''(var literal (expect '' @ [dquote] @ plus_literal @ [dquote] @ ''))'')
   \<and> out (projr (gen_visit_Rule plain_host start_rule (init_state [start_rule]))) ! 8
     = (2, ''(return [name, literal, number])'')"
proof -
  have b: "cleanup_statements (init_state [start_rule]) = []" by simp
  from start_rule_lines[OF plain_plus b, where lr=False and ld=False] obtain s' where
    r: "gen_visit_Rule plain_host start_rule (init_state [start_rule]) = Inr s'"
    and o: "out s' = out (init_state [start_rule]) @
        [(level (init_state [start_rule]), definition_line (start_rule\<lparr>left_recursive := False, leader := False\<rparr>)),
         (level (init_state [start_rule]) + 1, ''# start: '' @ rhs_str plain_host start_rhs),
         (level (init_state [start_rule]) + 1, ''(var mark (:_mark self))''),
         (level (init_state [start_rule]) + 1, ''(when (and ''),
         (level (init_state [start_rule]) + 2, ''(var name (self name))''),
         (level (init_state [start_rule]) + 2, ''(var literal (expect '' @ [dquote] @ plus_literal @ [dquote] @ ''))''),
         (level (init_state [start_rule]) + 2, ''(var number (self number))''),
         (level (init_state [start_rule]) + 1, '')''),
         (level (init_state [start_rule]) + 2, ''(return [name, literal, number])''),
         (level (init_state [start_rule]) + 1, ''(:_reset self mark)''),
         (level (init_state [start_rule]) + 1, ''(return None)''),
         (level (init_state [start_rule]), '')'')]"
    unfolding start_rule_flags by blast
  show ?thesis unfolding r by (simp add: o numeral_2_eq_2)
qed

section \<open>Alternatives with a cut\<close>

lemmas eval_defs = gen_visit_Rule_def is_loop_def is_gather_def
  startswith_def flatten_def without_invalid_def definition_line_def decorators_def
  endswith_def gen_visit_Rhs_def action_mentions_def Let_def
  gen_visit_Alt_def alt_action_def has_cut_def
  gen_visit_NamedItem_def lower_def lower_char_def print_item_def
  item_name_def truthy_def dedupe_def dedupe_loop.simps
  print_action_def default_action_def local_variable_names_def add_return_def restore_stmt_def
  init_state_def gen_print_def indent_def dedent_def push_locals_def pop_locals_def
  visit_NameLeaf_def replace_def plain_host_def default_unreachable_formatting_def
  default_location_formatting_def







lemma cut_rule_eval:
  "\<exists>s'. gen_visit_Rule plain_host cut_rule (init_state [cut_rule]) = Inr s' \<and> out s' =
     [(0, ''(decorated-defn [@memoize] pair_without_invalid [self]''),
      (1, ''# pair_without_invalid: ...''),
      (1, ''(def _prev_call_invalid (self :call_invalid_rules))''),
      (1, ''(set self :call_invalid_rules False)''),
      (1, ''(var mark (:_mark self))''),
      (1, ''(set cut False)''),
      (1, ''(when (and ''),
      (2, ''(var name (self name))''),
      (2, ''(var cut true)''),
      (2, ''(var number (self number))''),
      (1, '')''),
      (2, ''(set self :call_invalid_rules _prev_call_invalid)''),
      (2, ''(return [name, number])''),
      (1, ''(:_reset self mark)''),
      (1, ''(when cut (return nil))''),
      (1, ''(set self :call_invalid_rules _prev_call_invalid)''),
      (1, ''(return None)''),
      (0, '')'')]
   \<and> cleanup_statements s' = []"
  by (simp add: eval_defs cut_rule_def cut_alt_def numeral_2_eq_2)

section \<open>The control flow emitted for a cut\<close>




section \<open>Cleanup on the return paths of a rule\<close>

text \<open>
  Claim C10. The rule \<^verbatim>\<open>pair_without_invalid: NAME ~ NUMBER\<close>, emitted by a new generator
  on the example host. The function saves the flag and switches it off at its entry; the
  return of the alternative and the final return each come right after the statement that
  restores the flag; the return of the cut, \<^verbatim>\<open>(when cut (return nil))\<close>, comes right after
  the reset of the mark, with no restoring statement before it. After the rule the list
  of cleanup statements is empty again.
\<close>

theorem cut_return_skips_cleanup:
  "out (projr (gen_visit_Rule plain_host cut_rule (init_state [cut_rule]))) =
     [(0, ''(decorated-defn [@memoize] pair_without_invalid [self]''),
      (1, ''# pair_without_invalid: ...''),
      (1, ''(def _prev_call_invalid (self :call_invalid_rules))''),
      (1, ''(set self :call_invalid_rules False)''),
      (1, ''(var mark (:_mark self))''),
      (1, ''(set cut False)''),
      (1, ''(when (and ''),
      (2, ''(var name (self name))''),
      (2, ''(var cut true)''),
      (2, ''(var number (self number))''),
      (1, '')''),
      (2, ''(set self :call_invalid_rules _prev_call_invalid)''),
      (2, ''(return [name, number])''),
      (1, ''(:_reset self mark)''),
      (1, ''(when cut (return nil))''),
      (1, ''(set self :call_invalid_rules _prev_call_invalid)''),
      (1, ''(return None)''),
      (0, '')'')]
   \<and> cleanup_statements (projr (gen_visit_Rule plain_host cut_rule (init_state [cut_rule]))) = []"
proof -
  from cut_rule_eval obtain s' where r: "gen_visit_Rule plain_host cut_rule (init_state [cut_rule]) = Inr s'"
    and o: "out s' = [(0, ''(decorated-defn [@memoize] pair_without_invalid [self]''),
      (1, ''# pair_without_invalid: ...''),
      (1, ''(def _prev_call_invalid (self :call_invalid_rules))''),
      (1, ''(set self :call_invalid_rules False)''),
      (1, ''(var mark (:_mark self))''),
      (1, ''(set cut False)''),
      (1, ''(when (and ''),
      (2, ''(var name (self name))''),
      (2, ''(var cut true)''),
      (2, ''(var number (self number))''),
      (1, '')''),
      (2, ''(set self :call_invalid_rules _prev_call_invalid)''),
      (2, ''(return [name, number])''),
      (1, ''(:_reset self mark)''),
      (1, ''(when cut (return nil))''),
      (1, ''(set self :call_invalid_rules _prev_call_invalid)''),
      (1, ''(return None)''),
      (0, '')'')]"
    and c: "cleanup_statements s' = []"
    by blast
  show ?thesis unfolding r using o c by simp
qed

end
